theory Spec2Isabelle
  imports Complex_Main "HOL-Library.AList"
begin

section \<open>The cache engine of cache.py\<close>

text \<open>
  The engine keeps a dictionary from keys to nodes and a doubly linked list of the same
  nodes between two sentinel nodes. Nodes are Python objects that the dictionary and the
  list share, so the model has an explicit store: a node reference is an address, the
  store maps addresses to nodes, and \<open>prev\<close>/\<open>next\<close> hold an address or Python's
  \<open>None\<close>. Every method runs under one re-entrant lock, so a method is one atomic
  step from state to state. Each step returns the outcome (an exception or the returned
  value) together with the state it leaves behind.

  Timestamps (\<open>time.time()\<close>, \<open>expiry\<close>) and the hit rate are Python floats; the
  model takes them as real numbers and their arithmetic as exact, so rounding is outside
  it. The range of a float is kept where it decides whether a call returns: the
  conversion of an integer ttl to a float raises \<open>OverflowError\<close> beyond that range.
  A method that reads the clock takes the reading as its argument \<open>now\<close>.
\<close>

type_synonym addr = nat

text \<open>class CacheNode. The field \<open>next\<close> is written \<open>nxt\<close> and \<open>value\<close> is written
  \<open>val\<close>; a payload is \<open>'v option\<close> with \<open>None\<close> for Python's \<open>None\<close>.\<close>

record 'v CacheNode =
  key :: string
  val :: "'v option"
  expiry :: real
  prev :: "addr option"
  nxt :: "addr option"

definition CacheNode_init :: "string \<Rightarrow> 'v option \<Rightarrow> real \<Rightarrow> 'v CacheNode" where
  "CacheNode_init k v e = \<lparr>key = k, val = v, expiry = e, prev = None, nxt = None\<rparr>"

datatype exn = ValueError | OverflowError | AttributeError | KeyError

text \<open>class ThreadSafeCache. \<open>cache\<close> is the dictionary, in insertion order; \<open>heap\<close> is
  the store of node objects and \<open>fresh\<close> the next unused address.\<close>

record 'v ThreadSafeCache =
  max_size :: int
  default_ttl :: "int option"
  cache :: "(string \<times> addr) list"
  head :: addr
  tail :: addr
  hits :: int
  misses :: int
  evictions :: int
  expired_removals :: int
  cleanup_interval :: int
  running :: bool
  heap :: "addr \<Rightarrow> 'v CacheNode"
  fresh :: addr

text \<open>\<open>__init__\<close>: the two sentinels are allocated at addresses 0 and 1 and linked to
  each other.\<close>

definition ThreadSafeCache_init :: "int \<Rightarrow> int option \<Rightarrow> 'v ThreadSafeCache" where
  "ThreadSafeCache_init ms dttl =
     \<lparr>max_size = ms, default_ttl = dttl, cache = [], head = 0, tail = 1,
      hits = 0, misses = 0, evictions = 0, expired_removals = 0,
      cleanup_interval = 60, running = True,
      heap = (\<lambda>_. CacheNode_init [] None 0)
               (0 := (CacheNode_init [] None 0)\<lparr>nxt := Some 1\<rparr>,
                1 := (CacheNode_init [] None 0)\<lparr>prev := Some 0\<rparr>),
      fresh = 2\<rparr>"

text \<open>\<open>create_cache(max_size=1000, default_ttl=None)\<close>: an omitted argument is \<open>None\<close>
  here. For \<open>default_ttl\<close> an omitted argument and an explicit \<open>None\<close> are the same call.\<close>

definition create_cache :: "int option \<Rightarrow> int option \<Rightarrow> 'v ThreadSafeCache" where
  "create_cache ms dttl =
     ThreadSafeCache_init (case ms of None \<Rightarrow> 1000 | Some m \<Rightarrow> m) dttl"

subsection \<open>The linked list\<close>

text \<open>\<open>_add_to_front\<close>. Each attribute is read from the store as it is at that
  statement; \<open>self.head.next.prev = node\<close> raises when \<open>self.head.next\<close> is \<open>None\<close>.\<close>

definition add_to_front ::
  "addr \<Rightarrow> 'v ThreadSafeCache \<Rightarrow> (exn + unit) \<times> 'v ThreadSafeCache" where
  "add_to_front node s =
     (let h1 = (heap s)(node := (heap s node)\<lparr>nxt := nxt (heap s (head s))\<rparr>);
          h2 = h1(node := (h1 node)\<lparr>prev := Some (head s)\<rparr>)
      in case nxt (h2 (head s)) of
           None \<Rightarrow> (Inl AttributeError, s\<lparr>heap := h2\<rparr>)
         | Some f \<Rightarrow>
             (let h3 = h2(f := (h2 f)\<lparr>prev := Some node\<rparr>);
                  h4 = h3(head s := (h3 (head s))\<lparr>nxt := Some node\<rparr>)
              in (Inr (), s\<lparr>heap := h4\<rparr>)))"

text \<open>\<open>_remove_node\<close>.\<close>

definition remove_node ::
  "addr \<Rightarrow> 'v ThreadSafeCache \<Rightarrow> (exn + unit) \<times> 'v ThreadSafeCache" where
  "remove_node node s =
     (case prev (heap s node) of
        None \<Rightarrow> (Inl AttributeError, s)
      | Some p \<Rightarrow>
          (let h1 = (heap s)(p := (heap s p)\<lparr>nxt := nxt (heap s node)\<rparr>)
           in case nxt (h1 node) of
                None \<Rightarrow> (Inl AttributeError, s\<lparr>heap := h1\<rparr>)
              | Some n \<Rightarrow>
                  (Inr (), s\<lparr>heap := h1(n := (h1 n)\<lparr>prev := prev (h1 node)\<rparr>)\<rparr>)))"

text \<open>\<open>_evict_lru\<close>, with its two safety checks.\<close>

definition evict_lru :: "'v ThreadSafeCache \<Rightarrow> (exn + unit) \<times> 'v ThreadSafeCache" where
  "evict_lru s =
     (if cache s = [] then (Inr (), s)
      else case prev (heap s (tail s)) of
             None \<Rightarrow> (Inl AttributeError, s)
           | Some lru_node \<Rightarrow>
               if lru_node = head s then (Inr (), s)
               else (case remove_node lru_node s of
                       (Inl e, s1) \<Rightarrow> (Inl e, s1)
                     | (Inr _, s1) \<Rightarrow>
                         (case map_of (cache s1) (key (heap s1 lru_node)) of
                            None \<Rightarrow> (Inl KeyError, s1)
                          | Some _ \<Rightarrow>
                              (Inr (), s1\<lparr>cache := AList.delete (key (heap s1 lru_node)) (cache s1),
                                         evictions := evictions s1 + 1\<rparr>))))"

text \<open>\<open>_is_expired\<close>, at the clock reading \<open>now\<close>.\<close>

definition is_expired :: "real \<Rightarrow> 'v CacheNode \<Rightarrow> bool" where
  "is_expired now node = (expiry node > 0 \<and> now > expiry node)"

subsection \<open>The public operations\<close>

text \<open>\<open>time.time() + ttl\<close> adds an \<open>int\<close> to a \<open>float\<close>: Python first converts the
  integer to a float, rounding to the nearest float, and raises \<open>OverflowError\<close> when
  that is beyond the largest float \<open>2 ^ 1024 - 2 ^ 971\<close>, which is the case from the
  magnitude \<open>2 ^ 1024 - 2 ^ 970\<close> on. The sum of two floats never raises.\<close>

definition float_limit :: int where
  "float_limit = 2 ^ 1024 - 2 ^ 970"

definition int_to_float :: "int \<Rightarrow> exn + real" where
  "int_to_float n = (if float_limit \<le> \<bar>n\<bar> then Inl OverflowError else Inr (real_of_int n))"

definition float_add_int :: "real \<Rightarrow> int \<Rightarrow> exn + real" where
  "float_add_int x n = (case int_to_float n of Inl err \<Rightarrow> Inl err | Inr y \<Rightarrow> Inr (x + y))"

text \<open>The expiry that \<open>put\<close> calculates (the first statements under its lock).\<close>

definition put_expiry :: "int option \<Rightarrow> int option \<Rightarrow> real \<Rightarrow> exn + real" where
  "put_expiry ttl dttl now =
     (case ttl of
        Some t \<Rightarrow> float_add_int now t
      | None \<Rightarrow> (case dttl of Some d \<Rightarrow> float_add_int now d | None \<Rightarrow> Inr 0))"

text \<open>\<open>put\<close>. The key is \<open>None\<close> for Python's \<open>None\<close>. An exception raised while the
  expiry is calculated leaves the method before anything is written.\<close>

definition put ::
  "string option \<Rightarrow> 'v option \<Rightarrow> int option \<Rightarrow> real \<Rightarrow> 'v ThreadSafeCache
     \<Rightarrow> (exn + unit) \<times> 'v ThreadSafeCache" where
  "put k v ttl now s =
     (case k of
        None \<Rightarrow> (Inl ValueError, s)
      | Some ky \<Rightarrow>
          if ky = [] then (Inl ValueError, s)
          else
            (case put_expiry ttl (default_ttl s) now of
               Inl err \<Rightarrow> (Inl err, s)
             | Inr e \<Rightarrow>
                 (case map_of (cache s) ky of
                    Some node \<Rightarrow>
                      (let h1 = (heap s)(node := (heap s node)\<lparr>val := v\<rparr>);
                           h2 = h1(node := (h1 node)\<lparr>expiry := e\<rparr>)
                       in case remove_node node (s\<lparr>heap := h2\<rparr>) of
                            (Inl x, s1) \<Rightarrow> (Inl x, s1)
                          | (Inr _, s1) \<Rightarrow> add_to_front node s1)
                  | None \<Rightarrow>
                      (let node = fresh s;
                           s1 = s\<lparr>heap := (heap s)(node := CacheNode_init ky v e),
                                  fresh := Suc node\<rparr>;
                           s2 = s1\<lparr>cache := AList.update ky node (cache s1)\<rparr>
                       in case add_to_front node s2 of
                            (Inl x, s3) \<Rightarrow> (Inl x, s3)
                          | (Inr _, s3) \<Rightarrow>
                              if int (length (cache s3)) > max_size s3 then evict_lru s3
                              else (Inr (), s3)))))"

text \<open>\<open>get\<close>.\<close>

definition get ::
  "string \<Rightarrow> real \<Rightarrow> 'v ThreadSafeCache \<Rightarrow> (exn + 'v option) \<times> 'v ThreadSafeCache" where
  "get ky now s =
     (case map_of (cache s) ky of
        Some node \<Rightarrow>
          if is_expired now (heap s node) then
            (case remove_node node s of
               (Inl x, s1) \<Rightarrow> (Inl x, s1)
             | (Inr _, s1) \<Rightarrow>
                 (Inr None, s1\<lparr>cache := AList.delete ky (cache s1),
                               expired_removals := expired_removals s1 + 1,
                               misses := misses s1 + 1\<rparr>))
          else
            (case remove_node node s of
               (Inl x, s1) \<Rightarrow> (Inl x, s1)
             | (Inr _, s1) \<Rightarrow>
                 (case add_to_front node s1 of
                    (Inl x, s2) \<Rightarrow> (Inl x, s2)
                  | (Inr _, s2) \<Rightarrow> (Inr (val (heap s2 node)), s2\<lparr>hits := hits s2 + 1\<rparr>)))
      | None \<Rightarrow> (Inr None, s\<lparr>misses := misses s + 1\<rparr>))"

text \<open>\<open>delete\<close>.\<close>

definition delete ::
  "string \<Rightarrow> 'v ThreadSafeCache \<Rightarrow> (exn + bool) \<times> 'v ThreadSafeCache" where
  "delete ky s =
     (case map_of (cache s) ky of
        Some node \<Rightarrow>
          (case remove_node node s of
             (Inl x, s1) \<Rightarrow> (Inl x, s1)
           | (Inr _, s1) \<Rightarrow> (Inr True, s1\<lparr>cache := AList.delete ky (cache s1)\<rparr>))
      | None \<Rightarrow> (Inr False, s))"

text \<open>\<open>clear\<close>.\<close>

definition clear :: "'v ThreadSafeCache \<Rightarrow> (exn + unit) \<times> 'v ThreadSafeCache" where
  "clear s =
     (let s1 = s\<lparr>cache := []\<rparr>;
          h1 = (heap s1)(head s1 := (heap s1 (head s1))\<lparr>nxt := Some (tail s1)\<rparr>);
          h2 = h1(tail s1 := (h1 (tail s1))\<lparr>prev := Some (head s1)\<rparr>)
      in (Inr (), s1\<lparr>heap := h2\<rparr>))"

text \<open>class CacheStats and \<open>get_stats\<close>. The keys \<open>hits\<close>, \<open>misses\<close>, \<open>evictions\<close> and
  \<open>expired_removals\<close> of the dictionary are the fields \<open>stat_hits\<close>, \<open>stat_misses\<close>,
  \<open>stat_evictions\<close> and \<open>stat_expired_removals\<close>. The division is Python's true division
  of two integers, taken as the quotient of reals.\<close>

record CacheStats =
  stat_hits :: int
  stat_misses :: int
  hit_rate :: real
  total_requests :: int
  current_size :: int
  stat_evictions :: int
  stat_expired_removals :: int

definition get_stats :: "'v ThreadSafeCache \<Rightarrow> (exn + CacheStats) \<times> 'v ThreadSafeCache" where
  "get_stats s =
     (let total = hits s + misses s;
          rate = (if total > 0 then real_of_int (hits s) / real_of_int total else 0)
      in (Inr \<lparr>stat_hits = hits s, stat_misses = misses s, hit_rate = rate,
               total_requests = total, current_size = int (length (cache s)),
               stat_evictions = evictions s,
               stat_expired_removals = expired_removals s\<rparr>, s))"

subsection \<open>The background sweep and shutdown\<close>

text \<open>\<open>_cleanup_expired\<close>: the keys of the expired entries are collected in dictionary
  order, then each is removed.\<close>

definition expired_keys :: "real \<Rightarrow> 'v ThreadSafeCache \<Rightarrow> string list" where
  "expired_keys now s =
     map fst (filter (\<lambda>(ky, node). expiry (heap s node) > 0 \<and> now > expiry (heap s node))
                (cache s))"

fun remove_keys ::
  "string list \<Rightarrow> 'v ThreadSafeCache \<Rightarrow> (exn + unit) \<times> 'v ThreadSafeCache" where
  "remove_keys [] s = (Inr (), s)"
| "remove_keys (ky # kys) s =
     (case map_of (cache s) ky of
        None \<Rightarrow> (Inl KeyError, s)
      | Some node \<Rightarrow>
          (case remove_node node s of
             (Inl x, s1) \<Rightarrow> (Inl x, s1)
           | (Inr _, s1) \<Rightarrow>
               remove_keys kys
                 (s1\<lparr>cache := AList.delete ky (cache s1),
                     expired_removals := expired_removals s1 + 1\<rparr>)))"

definition cleanup_expired ::
  "real \<Rightarrow> 'v ThreadSafeCache \<Rightarrow> (exn + unit) \<times> 'v ThreadSafeCache" where
  "cleanup_expired now s = remove_keys (expired_keys now s) s"

text \<open>\<open>shutdown\<close>: only the flag is state of the model.\<close>

definition shutdown :: "'v ThreadSafeCache \<Rightarrow> (exn + unit) \<times> 'v ThreadSafeCache" where
  "shutdown s = (Inr (), s\<lparr>running := False\<rparr>)"

subsection \<open>Runs of the engine\<close>

text \<open>The lock serialises the callers and the sweeping thread, so a run of the engine is
  a sequence of calls, each with the clock reading it sees. An exception goes to the
  caller and the engine goes on from the state the call left.\<close>

datatype 'v call =
    Put "string option" "'v option" "int option" real
  | Get string real
  | Delete string
  | Clear
  | GetStats
  | Sweep real
  | Shutdown

fun step :: "'v call \<Rightarrow> 'v ThreadSafeCache \<Rightarrow> 'v ThreadSafeCache" where
  "step (Put k v ttl now) s = snd (put k v ttl now s)"
| "step (Get ky now) s = snd (get ky now s)"
| "step (Delete ky) s = snd (delete ky s)"
| "step Clear s = snd (clear s)"
| "step GetStats s = snd (get_stats s)"
| "step (Sweep now) s = snd (cleanup_expired now s)"
| "step Shutdown s = snd (shutdown s)"

fun run :: "'v call list \<Rightarrow> 'v ThreadSafeCache \<Rightarrow> 'v ThreadSafeCache" where
  "run [] s = s"
| "run (c # cs) s = run cs (step c s)"

subsection \<open>Walking the recency sequence\<close>

text \<open>\<open>walk f stop n a\<close> follows the pointer field \<open>f\<close> from \<open>a\<close> and lists the nodes it
  meets before \<open>stop\<close>; it gives up (\<open>None\<close>) at a \<open>None\<close> pointer or after \<open>n\<close> steps.
  No walk over distinct allocated nodes is longer than \<open>fresh\<close>.\<close>

fun walk :: "(addr \<Rightarrow> addr option) \<Rightarrow> addr \<Rightarrow> nat \<Rightarrow> addr \<Rightarrow> addr list option" where
  "walk f stop 0 a = None"
| "walk f stop (Suc n) a =
     (case f a of
        None \<Rightarrow> None
      | Some b \<Rightarrow> if b = stop then Some [] else map_option ((#) b) (walk f stop n b))"

definition recency :: "'v ThreadSafeCache \<Rightarrow> addr list option" where
  "recency s = walk (\<lambda>a. nxt (heap s a)) (tail s) (fresh s) (head s)"

definition recency_back :: "'v ThreadSafeCache \<Rightarrow> addr list option" where
  "recency_back s = walk (\<lambda>a. prev (heap s a)) (head s) (fresh s) (tail s)"

subsection \<open>The representation invariant\<close>

text \<open>\<open>link h a b\<close>: in the store \<open>h\<close> the node \<open>a\<close> points forward to \<open>b\<close> and \<open>b\<close>
  points back to \<open>a\<close>. \<open>linked s xs\<close>: the list runs from the head sentinel through the
  nodes \<open>xs\<close>, in this order, to the tail sentinel; all these nodes are different and
  allocated.\<close>

definition link :: "(addr \<Rightarrow> 'v CacheNode) \<Rightarrow> addr \<Rightarrow> addr \<Rightarrow> bool" where
  "link h a b = (nxt (h a) = Some b \<and> prev (h b) = Some a)"

definition linked :: "'v ThreadSafeCache \<Rightarrow> addr list \<Rightarrow> bool" where
  "linked s xs =
     (successively (link (heap s)) (head s # xs @ [tail s]) \<and>
      distinct (head s # xs @ [tail s]) \<and>
      (\<forall>a \<in> set (head s # xs @ [tail s]). a < fresh s))"

text \<open>Two stores with the same keys, values and expiries at every node.\<close>

definition same_payload :: "(addr \<Rightarrow> 'v CacheNode) \<Rightarrow> (addr \<Rightarrow> 'v CacheNode) \<Rightarrow> bool" where
  "same_payload h h' =
     (\<forall>a. key (h' a) = key (h a) \<and> val (h' a) = val (h a) \<and> expiry (h' a) = expiry (h a))"

text \<open>\<open>indexed s xs\<close>: the dictionary has one entry for each node of \<open>xs\<close> and no other,
  under the key the node carries, and no key is empty.\<close>

definition indexed :: "'v ThreadSafeCache \<Rightarrow> addr list \<Rightarrow> bool" where
  "indexed s xs =
     (distinct (map fst (cache s)) \<and> distinct (map snd (cache s)) \<and>
      set (map snd (cache s)) = set xs \<and>
      (\<forall>(k, a) \<in> set (cache s). key (heap s a) = k \<and> k \<noteq> []))"

definition consistent :: "'v ThreadSafeCache \<Rightarrow> addr list \<Rightarrow> bool" where
  "consistent s xs = (linked s xs \<and> indexed s xs)"

text \<open>What every run of the engine keeps: the list and the dictionary hold the same nodes,
  and the dictionary is no larger than \<open>max_size\<close> (or empty when \<open>max_size\<close> is not
  positive).\<close>

definition invariant :: "'v ThreadSafeCache \<Rightarrow> bool" where
  "invariant s = ((\<exists>xs. consistent s xs) \<and> int (length (cache s)) \<le> max 0 (max_size s))"

text \<open>The calls that are requests to \<open>get\<close>.\<close>

fun is_get :: "'v call \<Rightarrow> bool" where
  "is_get (Get ky now) = True"
| "is_get c = False"

text \<open>The ttl that applies to a put, the explicit one or else the default of the engine,
  has a magnitude of \<open>2 ^ 1024 - 2 ^ 970\<close> or more.\<close>

definition ttl_overflows :: "int option \<Rightarrow> int option \<Rightarrow> bool" where
  "ttl_overflows ttl dttl =
     (case ttl of
        Some t \<Rightarrow> 2 ^ 1024 - 2 ^ 970 \<le> \<bar>t\<bar>
      | None \<Rightarrow> (case dttl of Some d \<Rightarrow> 2 ^ 1024 - 2 ^ 970 \<le> \<bar>d\<bar> | None \<Rightarrow> False))"

subsection \<open>Example runs\<close>

text \<open>The statistics test of test\_cache.py: one put, two hits and one miss.\<close>

definition stats_example :: "string ThreadSafeCache" where
  "stats_example =
     run [Put (Some ''key1'') (Some ''value1'') None 100, Get ''key1'' 101, Get ''key1'' 102,
          Get ''missing'' 103]
       (create_cache (Some 10) (Some 60))"

text \<open>Two entries in a cache of capacity two: \<open>a\<close> never expires and was read last,
  \<open>b\<close> expires at 16.\<close>

definition two_entries :: "string ThreadSafeCache" where
  "two_entries =
     run [Put (Some ''a'') (Some ''1'') None 10, Put (Some ''b'') (Some ''2'') (Some 5) 11,
          Get ''a'' 12]
       (create_cache (Some 2) None)"

text \<open>A put whose ttl is negative and larger than the clock reading.\<close>

definition immortal_example :: "string ThreadSafeCache" where
  "immortal_example =
     run [Put (Some ''k'') (Some ''v'') (Some (- 2000000000)) 1700000000]
       (create_cache None None)"

section \<open>Properties\<close>

subsection \<open>Converting a ttl\<close>

lemma float_limit_large: "2 ^ 1000 < float_limit"
  by (simp add: float_limit_def)

lemma int_to_float_small:
  assumes "\<bar>n\<bar> \<le> 1000000000000"
  shows "int_to_float n = Inr (real_of_int n)"
proof -
  have "(1000000000000 :: int) < 2 ^ 1000" by simp
  with assms float_limit_large have "\<bar>n\<bar> < float_limit" by linarith
  then show ?thesis by (simp add: int_to_float_def)
qed

lemma int_to_float_cases:
  "int_to_float n = Inl OverflowError \<longleftrightarrow> float_limit \<le> \<bar>n\<bar>"
  "int_to_float n = Inr x \<longleftrightarrow> \<bar>n\<bar> < float_limit \<and> x = real_of_int n"
  "int_to_float n \<noteq> Inl ValueError" "int_to_float n \<noteq> Inl AttributeError"
  "int_to_float n \<noteq> Inl KeyError"
  by (auto simp: int_to_float_def)

lemmas engine_defs =
  create_cache_def ThreadSafeCache_init_def CacheNode_init_def put_def get_def delete_def
  clear_def get_stats_def cleanup_expired_def expired_keys_def shutdown_def add_to_front_def
  remove_node_def evict_lru_def is_expired_def put_expiry_def float_add_int_def
  int_to_float_small recency_def recency_back_def Let_def eval_nat_numeral

subsection \<open>Surgery on the linked list\<close>

lemma same_payload_trans: "same_payload h h' \<Longrightarrow> same_payload h' h'' \<Longrightarrow> same_payload h h''"
  by (simp add: same_payload_def)

lemma link_frame:
  assumes "link h c d" and "nxt (h' c) = nxt (h c)" and "prev (h' d) = prev (h d)"
  shows "link h' c d"
  using assms by (simp add: link_def)

text \<open>Unlinking the node between \<open>a\<close> and \<open>b\<close>.\<close>

lemma successively_unlink:
  assumes succ: "successively (link h) (as @ x # bs)"
    and dist: "distinct (as @ x # bs)"
    and ne: "as \<noteq> []" "bs \<noteq> []"
    and h': "h' = h(last as := (h (last as))\<lparr>nxt := Some (hd bs)\<rparr>,
                    hd bs := (h (hd bs))\<lparr>prev := Some (last as)\<rparr>)"
  shows "successively (link h') (as @ bs)"
proof -
  let ?a = "last as" and ?b = "hd bs"
  from succ ne have sa: "successively (link h) as" and sb: "successively (link h) bs"
    and lax: "link h ?a x" and lxb: "link h x ?b"
    by (auto simp: successively_append_iff successively_Cons)
  from ne dist have ab: "?a \<noteq> ?b" "?a \<in> set as" "?b \<in> set bs" "x \<notin> set as" "x \<notin> set bs"
    by (auto dest: last_in_set hd_in_set)
  have "successively (link h') as"
  proof (rule successively_mono [OF sa])
    fix c d assume cd: "c \<in> set as" "d \<in> set as" "link h c d"
    from cd lax ab have "c \<noteq> ?a" by (auto simp: link_def)
    moreover from cd dist ab have "d \<noteq> ?b" by auto
    ultimately show "link h' c d" using cd(3) by (auto simp: link_def h')
  qed
  moreover have "successively (link h') bs"
  proof (rule successively_mono [OF sb])
    fix c d assume cd: "c \<in> set bs" "d \<in> set bs" "link h c d"
    from cd lxb ab have "d \<noteq> ?b" by (auto simp: link_def)
    moreover from cd dist ab have "c \<noteq> ?a" by auto
    ultimately show "link h' c d" using cd(3) by (auto simp: link_def h')
  qed
  moreover have "link h' ?a ?b" using ab by (simp add: link_def h')
  ultimately show ?thesis using ne by (simp add: successively_append_iff)
qed

lemma successively_mid:
  assumes "successively (link h) (as @ x # bs)" and "as \<noteq> []" and "bs \<noteq> []"
  shows "link h (last as) x" and "link h x (hd bs)"
  using assms by (auto simp: successively_append_iff successively_Cons)

lemma remove_node_linked:
  assumes l: "linked s (ys @ x # zs)"
  shows "\<exists>h'. remove_node x s = (Inr (), s\<lparr>heap := h'\<rparr>) \<and> linked (s\<lparr>heap := h'\<rparr>) (ys @ zs) \<and>
           same_payload (heap s) h'"
proof -
  define as where "as = head s # ys"
  define bs where "bs = zs @ [tail s]"
  define a where "a = last as"
  define b where "b = hd bs"
  let ?h = "heap s"
  define h' where "h' = ?h(a := (?h a)\<lparr>nxt := Some b\<rparr>, b := (?h b)\<lparr>prev := Some a\<rparr>)"
  have ne: "as \<noteq> []" "bs \<noteq> []" by (simp_all add: as_def bs_def)
  from l have succ: "successively (link ?h) (as @ x # bs)"
    and dist: "distinct (as @ x # bs)"
    and bound: "\<forall>c \<in> set (as @ x # bs). c < fresh s"
    by (simp_all add: linked_def as_def bs_def)
  from successively_mid [OF succ ne] have lax: "link ?h a x" and lxb: "link ?h x b"
    by (simp_all add: a_def b_def)
  from ne have "a \<in> set as" "b \<in> set bs" by (simp_all add: a_def b_def)
  with dist have ab: "a \<noteq> b" "x \<noteq> a" "x \<noteq> b" by auto
  have rn: "remove_node x s = (Inr (), s\<lparr>heap := h'\<rparr>)"
    using lax lxb ab by (simp add: remove_node_def link_def h'_def Let_def)
  have "successively (link h') (as @ bs)"
    by (rule successively_unlink [OF succ dist ne]) (simp add: h'_def a_def b_def)
  moreover from dist have "distinct (as @ bs)" by auto
  moreover from bound have "\<forall>c \<in> set (as @ bs). c < fresh s" by auto
  ultimately have "linked (s\<lparr>heap := h'\<rparr>) (ys @ zs)" by (simp add: linked_def as_def bs_def)
  moreover have "same_payload ?h h'" by (simp add: same_payload_def h'_def)
  ultimately show ?thesis using rn by blast
qed


lemma add_to_front_linked:
  assumes l: "linked s xs" and fresh: "n \<notin> set (head s # xs @ [tail s])" and bound: "n < fresh s"
  shows "\<exists>h'. add_to_front n s = (Inr (), s\<lparr>heap := h'\<rparr>) \<and> linked (s\<lparr>heap := h'\<rparr>) (n # xs) \<and>
           same_payload (heap s) h'"
proof -
  define bs where "bs = xs @ [tail s]"
  define f where "f = hd bs"
  let ?h = "heap s" and ?hd = "head s"
  define h' where "h' = ?h(n := (?h n)\<lparr>nxt := Some f, prev := Some ?hd\<rparr>,
                          f := (?h f)\<lparr>prev := Some n\<rparr>,
                          ?hd := (?h ?hd)\<lparr>nxt := Some n\<rparr>)"
  have ne: "bs \<noteq> []" by (simp add: bs_def)
  from l have succ: "successively (link ?h) (?hd # bs)" and dist: "distinct (?hd # bs)"
    and bnd: "\<forall>c \<in> set (?hd # bs). c < fresh s"
    by (simp_all add: linked_def bs_def)
  from succ ne have lhf: "link ?h ?hd f" and sb: "successively (link ?h) bs"
    by (simp_all add: successively_Cons f_def)
  from ne have fin: "f \<in> set bs" by (simp add: f_def)
  with dist fresh have neq: "n \<noteq> ?hd" "n \<noteq> f" "f \<noteq> ?hd" "n \<notin> set bs" "?hd \<notin> set bs"
    by (auto simp: bs_def)
  have af: "add_to_front n s = (Inr (), s\<lparr>heap := h'\<rparr>)"
    using lhf neq by (simp add: add_to_front_def link_def h'_def Let_def fun_upd_twist)
  have "successively (link h') bs"
  proof (rule successively_mono [OF sb])
    fix c d assume cd: "c \<in> set bs" "d \<in> set bs" "link ?h c d"
    from cd lhf neq have "d \<noteq> f" by (auto simp: link_def)
    moreover from cd neq have "c \<noteq> n" "c \<noteq> ?hd" "d \<noteq> n" by auto
    ultimately show "link h' c d" using cd(3) by (auto simp: link_def h'_def)
  qed
  moreover have "link h' ?hd n" "link h' n f" using neq by (simp_all add: link_def h'_def)
  ultimately have "successively (link h') (?hd # n # bs)"
    using ne by (simp add: successively_Cons f_def)
  moreover from dist neq have "distinct (?hd # n # bs)" by auto
  moreover from bnd bound have "\<forall>c \<in> set (?hd # n # bs). c < fresh s" by auto
  ultimately have "linked (s\<lparr>heap := h'\<rparr>) (n # xs)" by (simp add: linked_def bs_def)
  moreover have "same_payload ?h h'" by (simp add: same_payload_def h'_def)
  ultimately show ?thesis using af by blast
qed

lemma linked_frame:
  assumes l: "linked s xs"
    and same: "\<forall>c \<in> set (head s # xs @ [tail s]).
                 nxt (heap s' c) = nxt (heap s c) \<and> prev (heap s' c) = prev (heap s c)"
    and ends: "head s' = head s" "tail s' = tail s"
    and f: "fresh s \<le> fresh s'"
  shows "linked s' xs"
proof -
  from l have succ: "successively (link (heap s)) (head s # xs @ [tail s])"
    and dist: "distinct (head s # xs @ [tail s])"
    and bnd: "\<forall>a \<in> set (head s # xs @ [tail s]). a < fresh s"
    by (simp_all add: linked_def)
  have "successively (link (heap s')) (head s # xs @ [tail s])"
  proof (rule successively_mono [OF succ])
    fix c d assume cd: "c \<in> set (head s # xs @ [tail s])" "d \<in> set (head s # xs @ [tail s])"
      "link (heap s) c d"
    from same cd(1) have "nxt (heap s' c) = nxt (heap s c)" by blast
    moreover from same cd(2) have "prev (heap s' d) = prev (heap s d)" by blast
    ultimately show "link (heap s') c d" using cd(3) by (simp add: link_def)
  qed
  moreover from bnd f have "\<forall>a \<in> set (head s # xs @ [tail s]). a < fresh s'" by auto
  ultimately show ?thesis using dist ends by (simp add: linked_def)
qed

lemma remove1_split: "x \<notin> set ys \<Longrightarrow> remove1 x (ys @ x # zs) = ys @ zs"
  by (simp add: remove1_append)

lemma linked_split:
  assumes "linked s xs" and "a \<in> set xs"
  obtains ys zs where "xs = ys @ a # zs" and "remove1 a xs = ys @ zs"
proof -
  from assms(2) obtain ys zs where xs: "xs = ys @ a # zs" by (auto dest: split_list)
  from assms(1) have "distinct xs" by (simp add: linked_def)
  with xs have "a \<notin> set ys" by auto
  then have "remove1 a xs = ys @ zs" by (simp add: xs remove1_split)
  with xs show thesis by (rule that)
qed

lemma remove1_last:
  assumes "distinct xs" and "xs \<noteq> []"
  shows "remove1 (last xs) xs = butlast xs"
proof -
  from assms have "distinct (butlast xs @ [last xs])" by simp
  then have "last xs \<notin> set (butlast xs)" by simp
  from remove1_split [OF this, of "[]"] assms(2) show ?thesis by simp
qed

text \<open>Moving a node to the front.\<close>

lemma move_to_front:
  assumes l: "linked s xs" and ain: "a \<in> set xs"
  shows "\<exists>h1 h'. remove_node a s = (Inr (), s\<lparr>heap := h1\<rparr>) \<and>
           add_to_front a (s\<lparr>heap := h1\<rparr>) = (Inr (), s\<lparr>heap := h'\<rparr>) \<and>
           same_payload (heap s) h' \<and> linked (s\<lparr>heap := h'\<rparr>) (a # remove1 a xs)"
proof -
  from l ain obtain ys zs where xs: "xs = ys @ a # zs" and r: "remove1 a xs = ys @ zs"
    by (rule linked_split)
  from remove_node_linked [of s ys a zs] l xs obtain h1 where
    rn: "remove_node a s = (Inr (), s\<lparr>heap := h1\<rparr>)" and l1: "linked (s\<lparr>heap := h1\<rparr>) (ys @ zs)"
    and sp1: "same_payload (heap s) h1" by auto
  from l xs have "a \<notin> set (head s # ys @ zs @ [tail s])" "a < fresh s"
    by (auto simp: linked_def)
  with add_to_front_linked [OF l1, of a] obtain h' where
    af: "add_to_front a (s\<lparr>heap := h1\<rparr>) = (Inr (), s\<lparr>heap := h'\<rparr>)"
    and l': "linked (s\<lparr>heap := h'\<rparr>) (a # ys @ zs)" and sp2: "same_payload h1 h'"
    by auto
  from same_payload_trans [OF sp1 sp2] rn af l' r show ?thesis by auto
qed


subsection \<open>Walking the list\<close>

lemma walk_successively:
  assumes "successively R (p # xs @ [t])" and "\<And>a b. R a b \<Longrightarrow> f a = Some b"
    and "t \<notin> set xs" and "length xs < n"
  shows "walk f t n p = Some xs"
  using assms(1,3,4)
proof (induction xs arbitrary: p n)
  case Nil
  then obtain m where "n = Suc m" by (cases n) auto
  with Nil assms(2) [of p t] show ?case by simp
next
  case (Cons x xs)
  then obtain m where n: "n = Suc m" by (cases n) auto
  from Cons.prems have "R p x" "successively R (x # xs @ [t])" "x \<noteq> t" by auto
  with Cons n assms(2) [of p x] show ?case by simp
qed

lemma distinct_bounded_length:
  assumes "distinct (zs :: nat list)" and "\<forall>a \<in> set zs. a < n"
  shows "length zs \<le> n"
proof -
  from assms(2) have "set zs \<subseteq> {..<n}" by auto
  then have "card (set zs) \<le> card {..<n}" by (intro card_mono) auto
  with assms(1) show ?thesis by (simp add: distinct_card)
qed

lemma linked_recency:
  assumes "linked s xs"
  shows "recency s = Some xs"
proof -
  from assms have succ: "successively (link (heap s)) (head s # xs @ [tail s])"
    and dist: "distinct (head s # xs @ [tail s])"
    and bnd: "\<forall>a \<in> set (head s # xs @ [tail s]). a < fresh s"
    by (simp_all add: linked_def)
  from distinct_bounded_length [OF dist bnd] have "length xs < fresh s" by simp
  moreover from dist have "tail s \<notin> set xs" by auto
  ultimately show ?thesis
    unfolding recency_def
    by (intro walk_successively [OF succ]) (simp_all add: link_def)
qed

lemma linked_recency_back:
  assumes "linked s xs"
  shows "recency_back s = Some (rev xs)"
proof -
  from assms have succ: "successively (link (heap s)) (head s # xs @ [tail s])"
    and dist: "distinct (head s # xs @ [tail s])"
    and bnd: "\<forall>a \<in> set (head s # xs @ [tail s]). a < fresh s"
    by (simp_all add: linked_def)
  from succ have "successively (\<lambda>a b. link (heap s) b a) (rev (head s # xs @ [tail s]))"
    by (simp only: successively_rev)
  then have rv: "successively (\<lambda>a b. link (heap s) b a) (tail s # rev xs @ [head s])"
    by simp
  from distinct_bounded_length [OF dist bnd] have "length (rev xs) < fresh s" by simp
  moreover from dist have "head s \<notin> set (rev xs)" by auto
  ultimately show ?thesis
    unfolding recency_back_def
    by (intro walk_successively [OF rv]) (simp_all add: link_def)
qed

subsection \<open>The state as a record\<close>

lemma state_eq_iff:
  "(s = s') =
     (max_size s = max_size s' \<and> default_ttl s = default_ttl s' \<and> cache s = cache s' \<and>
      head s = head s' \<and> tail s = tail s' \<and> hits s = hits s' \<and> misses s = misses s' \<and>
      evictions s = evictions s' \<and> expired_removals s = expired_removals s' \<and>
      cleanup_interval s = cleanup_interval s' \<and> running s = running s' \<and>
      heap s = heap s' \<and> fresh s = fresh s')"
  for s s' :: "'v ThreadSafeCache"
  by (auto intro: ThreadSafeCache.equality)

subsection \<open>The dictionary\<close>

lemma update_new_key: "map_of al k = None \<Longrightarrow> AList.update k v al = al @ [(k, v)]"
  by (induction al) (auto split: if_splits)

lemma delete_values:
  assumes dk: "distinct (map fst al)" and dv: "distinct (map snd al)" and m: "map_of al k = Some a"
  shows "set (map snd (AList.delete k al)) = set (map snd al) - {a}"
proof -
  from m have ka: "(k, a) \<in> set al" by (rule map_of_SomeD)
  from dk have injk: "inj_on fst (set al)" by (simp add: distinct_map)
  from dv have injv: "inj_on snd (set al)" by (simp add: distinct_map)
  have "set (AList.delete k al) = set al - {(k, a)}"
  proof (rule set_eqI)
    fix p :: "'a \<times> 'b"
    obtain k' a' where p: "p = (k', a')" by (cases p)
    show "p \<in> set (AList.delete k al) \<longleftrightarrow> p \<in> set al - {(k, a)}"
      using inj_onD [OF injk, of p "(k, a)"] ka by (auto simp: p AList.delete_eq)
  qed
  moreover have "snd ` (set al - {(k, a)}) = snd ` set al - {a}"
    using inj_on_image_set_diff [OF injv, of "set al" "{(k, a)}"] ka by simp
  ultimately show ?thesis by simp
qed

lemma delete_distinct_values:
  "distinct (map snd al) \<Longrightarrow> distinct (map snd (AList.delete k al))"
  by (simp add: AList.delete_eq distinct_map_filter)

lemma indexed_lookup:
  assumes "indexed s xs" and "map_of (cache s) k = Some a"
  shows "a \<in> set xs" and "key (heap s a) = k" and "k \<noteq> []"
proof -
  from assms(2) have ka: "(k, a) \<in> set (cache s)" by (rule map_of_SomeD)
  with assms(1) show "key (heap s a) = k" and "k \<noteq> []" by (auto simp: indexed_def)
  from ka have "a \<in> snd ` set (cache s)" by force
  with assms(1) show "a \<in> set xs" by (simp add: indexed_def)
qed

lemma indexed_node:
  assumes "indexed s xs" and "a \<in> set xs"
  shows "map_of (cache s) (key (heap s a)) = Some a"
proof -
  from assms have "a \<in> snd ` set (cache s)" by (simp add: indexed_def)
  then obtain k where ka: "(k, a) \<in> set (cache s)" by force
  with assms(1) have "key (heap s a) = k" by (auto simp: indexed_def)
  moreover from assms(1) ka have "map_of (cache s) k = Some a" by (simp add: indexed_def)
  ultimately show ?thesis by simp
qed

lemma consistent_length:
  assumes "consistent s xs"
  shows "length (cache s) = length xs"
proof -
  from assms have "distinct xs" by (simp add: consistent_def linked_def)
  moreover from assms have "distinct (map snd (cache s))" "set (map snd (cache s)) = set xs"
    by (simp_all add: consistent_def indexed_def)
  ultimately have "length (map snd (cache s)) = length xs"
    by (metis distinct_card)
  then show ?thesis by simp
qed

lemma indexed_delete:
  assumes ix: "indexed s xs" and d: "distinct xs" and m: "map_of (cache s) k = Some a"
    and sp: "same_payload (heap s) h'"
  shows "indexed (s\<lparr>heap := h', cache := AList.delete k (cache s)\<rparr>) (remove1 a xs)"
proof -
  from ix have dk: "distinct (map fst (cache s))" and dv: "distinct (map snd (cache s))"
    and eq: "set (map snd (cache s)) = set xs"
    and keys: "\<forall>(k, a) \<in> set (cache s). key (heap s a) = k \<and> k \<noteq> []"
    by (simp_all add: indexed_def)
  have "set (map snd (AList.delete k (cache s))) = set (remove1 a xs)"
    using delete_values [OF dk dv m] eq d by simp
  moreover have "\<forall>(k', a') \<in> set (AList.delete k (cache s)). key (h' a') = k' \<and> k' \<noteq> []"
    using keys sp by (auto simp: AList.delete_eq same_payload_def)
  ultimately show ?thesis
    using dk dv by (simp add: indexed_def distinct_delete delete_distinct_values)
qed

lemma indexed_same:
  assumes "indexed s xs" and "\<forall>c. key (h' c) = key (heap s c)" and "set ys = set xs"
  shows "indexed (s\<lparr>heap := h'\<rparr>) ys"
  using assms by (auto simp: indexed_def)

lemma same_payload_keys: "same_payload h h' \<Longrightarrow> \<forall>c. key (h' c) = key (h c)"
  by (simp add: same_payload_def)

text \<open>Removing an entry: the node leaves the list, the key leaves the dictionary.\<close>

lemma remove_entry:
  assumes c: "consistent s xs" and m: "map_of (cache s) k = Some a"
  shows "\<exists>h'. remove_node a s = (Inr (), s\<lparr>heap := h'\<rparr>) \<and> same_payload (heap s) h' \<and>
           consistent (s\<lparr>heap := h', cache := AList.delete k (cache s)\<rparr>) (remove1 a xs)"
proof -
  from c have l: "linked s xs" and ix: "indexed s xs" by (simp_all add: consistent_def)
  from indexed_lookup(1) [OF ix m] have ain: "a \<in> set xs" .
  from l ain obtain ys zs where xs: "xs = ys @ a # zs" and r: "remove1 a xs = ys @ zs"
    by (rule linked_split)
  from remove_node_linked [of s ys a zs] l xs obtain h' where
    rn: "remove_node a s = (Inr (), s\<lparr>heap := h'\<rparr>)" and l': "linked (s\<lparr>heap := h'\<rparr>) (ys @ zs)"
    and sp: "same_payload (heap s) h'" by auto
  from l have d: "distinct xs" by (simp add: linked_def)
  from l' have "linked (s\<lparr>heap := h', cache := AList.delete k (cache s)\<rparr>) (remove1 a xs)"
    by (simp add: linked_def r)
  with indexed_delete [OF ix d m sp] rn sp show ?thesis
    by (auto simp: consistent_def)
qed

text \<open>\<open>_evict_lru\<close> on a non-empty cache removes the node before the tail sentinel and its
  key.\<close>

lemma evict_lru_consistent:
  assumes c: "consistent s xs" and ne: "xs \<noteq> []"
  shows "\<exists>h'. evict_lru s =
           (Inr (), s\<lparr>heap := h', cache := AList.delete (key (heap s (last xs))) (cache s),
                      evictions := evictions s + 1\<rparr>) \<and>
           same_payload (heap s) h' \<and>
           consistent (s\<lparr>heap := h', cache := AList.delete (key (heap s (last xs))) (cache s),
                        evictions := evictions s + 1\<rparr>) (butlast xs)"
proof -
  let ?lru = "last xs" and ?k = "key (heap s (last xs))"
  from c have l: "linked s xs" and ix: "indexed s xs" by (simp_all add: consistent_def)
  from ne have xs: "xs = butlast xs @ [?lru]" by simp
  from l have succ: "successively (link (heap s)) (head s # xs @ [tail s])"
    and dist: "distinct (head s # xs @ [tail s])" by (simp_all add: linked_def)
  from succ xs have "successively (link (heap s)) ((head s # butlast xs) @ ?lru # [tail s])"
    by (metis append_Cons append_assoc append_Nil)
  from successively_mid(2) [OF this] have pt: "prev (heap s (tail s)) = Some ?lru"
    by (simp add: link_def)
  from ne have lin: "?lru \<in> set xs" by simp
  with dist have nh: "?lru \<noteq> head s" by auto
  from indexed_node [OF ix lin] have m: "map_of (cache s) ?k = Some ?lru" .
  from consistent_length [OF c] ne have cne: "cache s \<noteq> []" by auto
  from remove_entry [OF c m] obtain h' where
    rn: "remove_node ?lru s = (Inr (), s\<lparr>heap := h'\<rparr>)" and sp: "same_payload (heap s) h'"
    and c': "consistent (s\<lparr>heap := h', cache := AList.delete ?k (cache s)\<rparr>) (remove1 ?lru xs)"
    by auto
  from sp have kk: "key (h' ?lru) = ?k" by (simp add: same_payload_def)
  from dist ne have r: "remove1 ?lru xs = butlast xs" by (simp add: remove1_last)
  have "evict_lru s =
          (Inr (), s\<lparr>heap := h', cache := AList.delete ?k (cache s), evictions := evictions s + 1\<rparr>)"
    using cne pt nh rn kk m by (simp add: evict_lru_def)
  moreover from c' r
  have "consistent (s\<lparr>heap := h', cache := AList.delete ?k (cache s),
                     evictions := evictions s + 1\<rparr>) (butlast xs)"
    by (simp add: consistent_def linked_def indexed_def)
  ultimately show ?thesis using sp by blast
qed


subsection \<open>put\<close>

lemma put_invalid_key:
  "put None v ttl now s = (Inl ValueError, s)" "put (Some []) v ttl now s = (Inl ValueError, s)"
  by (simp_all add: put_def)

text \<open>The ttl that applies cannot be converted: nothing is written.\<close>

lemma put_overflow:
  assumes "k \<noteq> []" and "put_expiry ttl (default_ttl s) now = Inl err"
  shows "put (Some k) v ttl now s = (Inl err, s)"
  using assms by (simp add: put_def)

lemma put_expiry_cases:
  "put_expiry ttl dttl now = Inl err \<longleftrightarrow> err = OverflowError \<and> ttl_overflows ttl dttl"
  "put_expiry ttl dttl now = Inr e \<longleftrightarrow>
     (case ttl of Some t \<Rightarrow> \<bar>t\<bar> < float_limit \<and> e = now + real_of_int t
      | None \<Rightarrow> (case dttl of Some d \<Rightarrow> \<bar>d\<bar> < float_limit \<and> e = now + real_of_int d
                 | None \<Rightarrow> e = 0))"
  by (auto simp: put_expiry_def float_add_int_def int_to_float_def ttl_overflows_def
      float_limit_def split: option.splits)

lemma put_expiry_total:
  "ttl_overflows ttl dttl \<Longrightarrow> put_expiry ttl dttl now = Inl OverflowError"
  "\<not> ttl_overflows ttl dttl \<Longrightarrow> \<exists>e. put_expiry ttl dttl now = Inr e"
  by (auto simp: put_expiry_def float_add_int_def int_to_float_def ttl_overflows_def
      float_limit_def split: option.splits)

text \<open>The state after the new node is allocated, indexed and linked in at the front.\<close>

lemma put_insert:
  assumes c: "consistent s xs" and k: "k \<noteq> []" and m: "map_of (cache s) k = None"
  shows "\<exists>h'. add_to_front (fresh s)
                 (s\<lparr>heap := (heap s)(fresh s := CacheNode_init k v e), fresh := Suc (fresh s),
                    cache := AList.update k (fresh s) (cache s)\<rparr>) =
               (Inr (), s\<lparr>heap := h', fresh := Suc (fresh s), cache := cache s @ [(k, fresh s)]\<rparr>) \<and>
           same_payload ((heap s)(fresh s := CacheNode_init k v e)) h' \<and>
           consistent (s\<lparr>heap := h', fresh := Suc (fresh s), cache := cache s @ [(k, fresh s)]\<rparr>)
             (fresh s # xs)"
proof -
  let ?n = "fresh s"
  let ?h0 = "(heap s)(?n := CacheNode_init k v e)"
  let ?s2 = "s\<lparr>heap := ?h0, fresh := Suc ?n, cache := cache s @ [(k, ?n)]\<rparr>"
  from c have l: "linked s xs" and ix: "indexed s xs" by (simp_all add: consistent_def)
  from l have nin: "?n \<notin> set (head s # xs @ [tail s])" by (auto simp: linked_def)
  then have "\<forall>c \<in> set (head s # xs @ [tail s]).
      nxt (heap ?s2 c) = nxt (heap s c) \<and> prev (heap ?s2 c) = prev (heap s c)" by auto
  from linked_frame [OF l this] have "linked ?s2 xs" by simp
  from add_to_front_linked [OF this, of ?n] nin obtain h' where
    af: "add_to_front ?n ?s2 = (Inr (), ?s2\<lparr>heap := h'\<rparr>)"
    and l': "linked (?s2\<lparr>heap := h'\<rparr>) (?n # xs)" and sp: "same_payload ?h0 h'"
    by auto
  from ix have dk: "distinct (map fst (cache s))" and dv: "distinct (map snd (cache s))"
    and eq: "set (map snd (cache s)) = set xs"
    and keys: "\<forall>(k, a) \<in> set (cache s). key (heap s a) = k \<and> k \<noteq> []"
    by (simp_all add: indexed_def)
  from m have knew: "k \<notin> fst ` set (cache s)" by (simp add: map_of_eq_None_iff)
  from nin eq have nnew: "?n \<notin> snd ` set (cache s)" by auto
  have "\<forall>(k', a') \<in> set (cache s @ [(k, ?n)]). key (h' a') = k' \<and> k' \<noteq> []"
  proof (clarify)
    fix k' a' assume "(k', a') \<in> set (cache s @ [(k, ?n)])"
    then consider "(k', a') \<in> set (cache s)" | "k' = k" "a' = ?n" by auto
    then show "key (h' a') = k' \<and> k' \<noteq> []"
    proof cases
      case 1
      with nnew have "a' \<noteq> ?n" by force
      with sp have "key (h' a') = key (heap s a')" by (simp add: same_payload_def)
      with keys 1 show ?thesis by auto
    next
      case 2
      with sp k show ?thesis by (simp add: same_payload_def CacheNode_init_def)
    qed
  qed
  with dk dv eq knew nnew
  have "indexed (s\<lparr>heap := h', fresh := Suc ?n, cache := cache s @ [(k, ?n)]\<rparr>) (?n # xs)"
    by (simp add: indexed_def)
  moreover from l' have "linked (s\<lparr>heap := h', fresh := Suc ?n, cache := cache s @ [(k, ?n)]\<rparr>) (?n # xs)"
    by (simp add: linked_def)
  moreover from af m have "add_to_front ?n
           (s\<lparr>heap := ?h0, fresh := Suc ?n, cache := AList.update k ?n (cache s)\<rparr>) =
         (Inr (), s\<lparr>heap := h', fresh := Suc ?n, cache := cache s @ [(k, ?n)]\<rparr>)"
    by (simp add: update_new_key state_eq_iff)
  ultimately show ?thesis using sp unfolding consistent_def by blast
qed

lemma put_new_key:
  assumes c: "consistent s xs" and k: "k \<noteq> []" and m: "map_of (cache s) k = None"
    and pe: "put_expiry ttl (default_ttl s) now = Inr e"
  shows "\<exists>h' s'. put (Some k) v ttl now s = (Inr (), s') \<and>
           same_payload ((heap s)(fresh s := CacheNode_init k v e)) h' \<and>
           (if max_size s < int (length (cache s)) + 1
            then s' = s\<lparr>heap := h', fresh := Suc (fresh s),
                       cache := AList.delete (key (h' (last (fresh s # xs)))) (cache s @ [(k, fresh s)]),
                       evictions := evictions s + 1\<rparr> \<and>
                 consistent s' (butlast (fresh s # xs))
            else s' = s\<lparr>heap := h', fresh := Suc (fresh s), cache := cache s @ [(k, fresh s)]\<rparr> \<and>
                 consistent s' (fresh s # xs))"
proof -
  let ?n = "fresh s" and ?e = e
  from put_insert [OF c k m, of v ?e] obtain h3 where
    af: "add_to_front ?n
           (s\<lparr>heap := (heap s)(?n := CacheNode_init k v ?e), fresh := Suc ?n,
              cache := AList.update k ?n (cache s)\<rparr>) =
         (Inr (), s\<lparr>heap := h3, fresh := Suc ?n, cache := cache s @ [(k, ?n)]\<rparr>)"
    and sp: "same_payload ((heap s)(?n := CacheNode_init k v ?e)) h3"
    and c3: "consistent (s\<lparr>heap := h3, fresh := Suc ?n, cache := cache s @ [(k, ?n)]\<rparr>) (?n # xs)"
    by blast
  let ?s3 = "s\<lparr>heap := h3, fresh := Suc ?n, cache := cache s @ [(k, ?n)]\<rparr>"
  show ?thesis
  proof (cases "max_size s < int (length (cache s)) + 1")
    case False
    with af k m pe have "put (Some k) v ttl now s = (Inr (), ?s3)"
      by (simp add: put_def Let_def)
    with sp c3 False show ?thesis by auto
  next
    case True
    from evict_lru_consistent [OF c3] obtain h' where
      ev: "evict_lru ?s3 =
             (Inr (), ?s3\<lparr>heap := h', cache := AList.delete (key (heap ?s3 (last (?n # xs)))) (cache ?s3),
                         evictions := evictions ?s3 + 1\<rparr>)"
      and sp': "same_payload (heap ?s3) h'"
      and c': "consistent (?s3\<lparr>heap := h', cache := AList.delete (key (heap ?s3 (last (?n # xs)))) (cache ?s3),
                         evictions := evictions ?s3 + 1\<rparr>) (butlast (?n # xs))"
      by blast
    from sp' have kk: "key (h' (last (?n # xs))) = key (h3 (last (?n # xs)))"
      by (simp add: same_payload_def)
    from af k m pe True ev have "put (Some k) v ttl now s =
        (Inr (), ?s3\<lparr>heap := h', cache := AList.delete (key (heap ?s3 (last (?n # xs)))) (cache ?s3),
                         evictions := evictions ?s3 + 1\<rparr>)"
      by (simp add: put_def Let_def)
    moreover from sp sp' have "same_payload ((heap s)(?n := CacheNode_init k v ?e)) h'"
      by (auto intro: same_payload_trans)
    ultimately show ?thesis using c' True kk by (auto simp del: last.simps butlast.simps)
  qed
qed

lemma put_existing_key:
  assumes c: "consistent s xs" and m: "map_of (cache s) k = Some a"
    and pe: "put_expiry ttl (default_ttl s) now = Inr e"
  shows "\<exists>h'. put (Some k) v ttl now s = (Inr (), s\<lparr>heap := h'\<rparr>) \<and>
           same_payload ((heap s)(a := (heap s a)\<lparr>val := v, expiry := e\<rparr>)) h' \<and>
           consistent (s\<lparr>heap := h'\<rparr>) (a # remove1 a xs)"
proof -
  let ?e = e
  let ?h2 = "(heap s)(a := (heap s a)\<lparr>val := v, expiry := ?e\<rparr>)"
  from c have l: "linked s xs" and ix: "indexed s xs" by (simp_all add: consistent_def)
  from indexed_lookup [OF ix m] have ain: "a \<in> set xs" and k: "k \<noteq> []" by simp_all
  have "\<forall>c \<in> set (head s # xs @ [tail s]).
      nxt (heap (s\<lparr>heap := ?h2\<rparr>) c) = nxt (heap s c) \<and>
      prev (heap (s\<lparr>heap := ?h2\<rparr>) c) = prev (heap s c)" by simp
  from linked_frame [OF l this] have l2: "linked (s\<lparr>heap := ?h2\<rparr>) xs" by simp
  from move_to_front [OF l2 ain] obtain h1 h' where
    rn: "remove_node a (s\<lparr>heap := ?h2\<rparr>) = (Inr (), s\<lparr>heap := h1\<rparr>)"
    and af: "add_to_front a (s\<lparr>heap := h1\<rparr>) = (Inr (), s\<lparr>heap := h'\<rparr>)"
    and sp: "same_payload ?h2 h'" and l': "linked (s\<lparr>heap := h'\<rparr>) (a # remove1 a xs)"
    by auto
  from sp have "\<forall>c. key (h' c) = key (heap s c)" by (simp add: same_payload_def)
  from indexed_same [OF ix this, of "a # remove1 a xs"] l ain
  have "indexed (s\<lparr>heap := h'\<rparr>) (a # remove1 a xs)" by (auto simp: linked_def)
  moreover from rn af k m pe have "put (Some k) v ttl now s = (Inr (), s\<lparr>heap := h'\<rparr>)"
    by (simp add: put_def Let_def)
  ultimately show ?thesis using sp l' by (auto simp: consistent_def)
qed


text \<open>A put of a new key into a cache with room for at least one entry.\<close>

lemma put_new_key_effect:
  assumes c: "consistent s xs" and pos: "0 < max_size s"
    and k: "ky \<noteq> []" and m: "map_of (cache s) ky = None"
    and pe: "put_expiry ttl (default_ttl s) now = Inr e"
    and p: "put (Some ky) v ttl now s = (r, s')"
  shows "r = Inr () \<and> map_of (cache s') ky = Some (fresh s) \<and>
         key (heap s' (fresh s)) = ky \<and> val (heap s' (fresh s)) = v \<and>
         expiry (heap s' (fresh s)) = e"
    and "max_size s < int (length (cache s)) + 1 \<Longrightarrow>
         xs \<noteq> [] \<and> map_of (cache s) (key (heap s (last xs))) = Some (last xs) \<and>
         cache s' = AList.delete (key (heap s (last xs))) (cache s @ [(ky, fresh s)]) \<and>
         map_of (cache s') (key (heap s (last xs))) = None \<and>
         consistent s' (fresh s # butlast xs) \<and>
         length (cache s') = length (cache s) \<and>
         evictions s' = evictions s + 1"
    and "\<not> max_size s < int (length (cache s)) + 1 \<Longrightarrow>
         cache s' = cache s @ [(ky, fresh s)] \<and> consistent s' (fresh s # xs) \<and>
         evictions s' = evictions s"
proof -
  let ?n = "fresh s"
  let ?h0 = "(heap s)(?n := CacheNode_init ky v (e))"
  from c have l: "linked s xs" and ix: "indexed s xs" by (simp_all add: consistent_def)
  from put_new_key [OF c k m pe, of v] p obtain h' where
    r: "r = Inr ()" and sp: "same_payload ?h0 h'"
    and s': "if max_size s < int (length (cache s)) + 1
          then s' = s\<lparr>heap := h', fresh := Suc ?n,
                     cache := AList.delete (key (h' (last (?n # xs)))) (cache s @ [(ky, ?n)]),
                     evictions := evictions s + 1\<rparr> \<and>
               consistent s' (butlast (?n # xs))
          else s' = s\<lparr>heap := h', fresh := Suc ?n, cache := cache s @ [(ky, ?n)]\<rparr> \<and>
               consistent s' (?n # xs)"
    by auto
  from sp have pay: "key (h' ?n) = ky" "val (h' ?n) = v"
    "expiry (h' ?n) = e"
    by (simp_all add: same_payload_def CacheNode_init_def)
  {
    assume False: "\<not> max_size s < int (length (cache s)) + 1"
    with s' have eq: "s' = s\<lparr>heap := h', fresh := Suc ?n, cache := cache s @ [(ky, ?n)]\<rparr>"
      and c': "consistent s' (?n # xs)" by auto
    from eq m have "map_of (cache s') ky = Some ?n" by (simp add: map_add_def)
    moreover from eq pay have "key (heap s' ?n) = ky" "val (heap s' ?n) = v"
      "expiry (heap s' ?n) = e" by simp_all
    moreover from eq have "cache s' = cache s @ [(ky, ?n)]" "evictions s' = evictions s"
      by simp_all
    ultimately have "r = Inr () \<and> map_of (cache s') ky = Some ?n \<and>
         key (heap s' ?n) = ky \<and> val (heap s' ?n) = v \<and>
         expiry (heap s' ?n) = e"
      and "cache s' = cache s @ [(ky, ?n)] \<and> consistent s' (?n # xs) \<and>
         evictions s' = evictions s"
      using r c' by blast+
  }
  note room = this
  {
    assume True: "max_size s < int (length (cache s)) + 1"
    with s' have eq: "s' = s\<lparr>heap := h', fresh := Suc ?n,
                     cache := AList.delete (key (h' (last (?n # xs)))) (cache s @ [(ky, ?n)]),
                     evictions := evictions s + 1\<rparr>"
      and c': "consistent s' (butlast (?n # xs))"
      by (auto simp del: last.simps butlast.simps)
    from True pos consistent_length [OF c] have ne: "xs \<noteq> []" by auto
    let ?lru = "last xs"
    from ne have lin: "?lru \<in> set xs" by simp
    with l have "?lru \<noteq> ?n" by (auto simp: linked_def)
    with sp have kl: "key (h' ?lru) = key (heap s ?lru)" by (simp add: same_payload_def)
    from indexed_node [OF ix lin] have ml: "map_of (cache s) (key (heap s ?lru)) = Some ?lru" .
    with m have kne: "key (heap s ?lru) \<noteq> ky" by auto
    from eq ne kl have ce: "cache s' = AList.delete (key (heap s ?lru)) (cache s @ [(ky, ?n)])"
      by simp
    from c' ne have "consistent s' (?n # butlast xs)" by simp
    moreover from ce kne m have "map_of (cache s') ky = Some ?n" by (simp add: map_add_def)
    moreover from ce have "map_of (cache s') (key (heap s ?lru)) = None"
      by (simp add: delete_conv')
    moreover from eq pay have "key (heap s' ?n) = ky" "val (heap s' ?n) = v"
      "expiry (heap s' ?n) = e" by simp_all
    moreover from consistent_length [OF c'] consistent_length [OF c] ne
    have "length (cache s') = length (cache s)" by simp
    moreover from eq have "evictions s' = evictions s + 1" by simp
    ultimately have "r = Inr () \<and> map_of (cache s') ky = Some ?n \<and>
         key (heap s' ?n) = ky \<and> val (heap s' ?n) = v \<and>
         expiry (heap s' ?n) = e"
      and "xs \<noteq> [] \<and> map_of (cache s) (key (heap s ?lru)) = Some ?lru \<and>
         cache s' = AList.delete (key (heap s ?lru)) (cache s @ [(ky, ?n)]) \<and>
         map_of (cache s') (key (heap s ?lru)) = None \<and>
         consistent s' (?n # butlast xs) \<and>
         length (cache s') = length (cache s) \<and>
         evictions s' = evictions s + 1"
      using r ne ml ce by blast+
  }
  note full = this
  from room(1) full(1)
  show "r = Inr () \<and> map_of (cache s') ky = Some (fresh s) \<and>
         key (heap s' (fresh s)) = ky \<and> val (heap s' (fresh s)) = v \<and>
         expiry (heap s' (fresh s)) = e"
    by blast
  from full(2)
  show "max_size s < int (length (cache s)) + 1 \<Longrightarrow>
         xs \<noteq> [] \<and> map_of (cache s) (key (heap s (last xs))) = Some (last xs) \<and>
         cache s' = AList.delete (key (heap s (last xs))) (cache s @ [(ky, fresh s)]) \<and>
         map_of (cache s') (key (heap s (last xs))) = None \<and>
         consistent s' (fresh s # butlast xs) \<and>
         length (cache s') = length (cache s) \<and>
         evictions s' = evictions s + 1" .
  from room(2)
  show "\<not> max_size s < int (length (cache s)) + 1 \<Longrightarrow>
         cache s' = cache s @ [(ky, fresh s)] \<and> consistent s' (fresh s # xs) \<and>
         evictions s' = evictions s" .
qed

subsection \<open>get, delete, clear\<close>

lemma get_absent:
  assumes "map_of (cache s) k = None"
  shows "get k now s = (Inr None, s\<lparr>misses := misses s + 1\<rparr>)"
  using assms by (simp add: get_def)

lemma get_expired:
  assumes c: "consistent s xs" and m: "map_of (cache s) k = Some a"
    and ex: "is_expired now (heap s a)"
  shows "\<exists>h'. get k now s =
           (Inr None, s\<lparr>heap := h', cache := AList.delete k (cache s),
                         expired_removals := expired_removals s + 1, misses := misses s + 1\<rparr>) \<and>
           same_payload (heap s) h' \<and>
           consistent (s\<lparr>heap := h', cache := AList.delete k (cache s),
                        expired_removals := expired_removals s + 1, misses := misses s + 1\<rparr>)
             (remove1 a xs)"
proof -
  from remove_entry [OF c m] obtain h' where
    rn: "remove_node a s = (Inr (), s\<lparr>heap := h'\<rparr>)" and sp: "same_payload (heap s) h'"
    and c': "consistent (s\<lparr>heap := h', cache := AList.delete k (cache s)\<rparr>) (remove1 a xs)"
    by auto
  from rn m ex have "get k now s =
      (Inr None, s\<lparr>heap := h', cache := AList.delete k (cache s),
                    expired_removals := expired_removals s + 1, misses := misses s + 1\<rparr>)"
    by (simp add: get_def state_eq_iff)
  moreover from c' have "consistent (s\<lparr>heap := h', cache := AList.delete k (cache s),
      expired_removals := expired_removals s + 1, misses := misses s + 1\<rparr>) (remove1 a xs)"
    by (simp add: consistent_def linked_def indexed_def)
  ultimately show ?thesis using sp by blast
qed

lemma get_hit:
  assumes c: "consistent s xs" and m: "map_of (cache s) k = Some a"
    and ex: "\<not> is_expired now (heap s a)"
  shows "\<exists>h'. get k now s = (Inr (val (heap s a)), s\<lparr>heap := h', hits := hits s + 1\<rparr>) \<and>
           same_payload (heap s) h' \<and>
           consistent (s\<lparr>heap := h', hits := hits s + 1\<rparr>) (a # remove1 a xs)"
proof -
  from c have l: "linked s xs" and ix: "indexed s xs" by (simp_all add: consistent_def)
  from indexed_lookup(1) [OF ix m] have ain: "a \<in> set xs" .
  from move_to_front [OF l ain] obtain h1 h' where
    rn: "remove_node a s = (Inr (), s\<lparr>heap := h1\<rparr>)"
    and af: "add_to_front a (s\<lparr>heap := h1\<rparr>) = (Inr (), s\<lparr>heap := h'\<rparr>)"
    and sp: "same_payload (heap s) h'" and l': "linked (s\<lparr>heap := h'\<rparr>) (a # remove1 a xs)"
    by auto
  from sp have v: "val (h' a) = val (heap s a)" by (simp add: same_payload_def)
  from rn af m ex v have "get k now s = (Inr (val (heap s a)), s\<lparr>heap := h', hits := hits s + 1\<rparr>)"
    by (simp add: get_def state_eq_iff)
  moreover from l ain have "set (a # remove1 a xs) = set xs" by (auto simp: linked_def)
  from indexed_same [OF ix same_payload_keys [OF sp] this]
  have "indexed (s\<lparr>heap := h', hits := hits s + 1\<rparr>) (a # remove1 a xs)"
    by (simp add: indexed_def)
  moreover from l' have "linked (s\<lparr>heap := h', hits := hits s + 1\<rparr>) (a # remove1 a xs)"
    by (simp add: linked_def)
  ultimately show ?thesis using sp unfolding consistent_def by blast
qed

lemma delete_absent:
  assumes "map_of (cache s) k = None"
  shows "delete k s = (Inr False, s)"
  using assms by (simp add: delete_def)

lemma delete_present:
  assumes c: "consistent s xs" and m: "map_of (cache s) k = Some a"
  shows "\<exists>h'. delete k s = (Inr True, s\<lparr>heap := h', cache := AList.delete k (cache s)\<rparr>) \<and>
           same_payload (heap s) h' \<and>
           consistent (s\<lparr>heap := h', cache := AList.delete k (cache s)\<rparr>) (remove1 a xs)"
proof -
  from remove_entry [OF c m] obtain h' where
    rn: "remove_node a s = (Inr (), s\<lparr>heap := h'\<rparr>)" and sp: "same_payload (heap s) h'"
    and c': "consistent (s\<lparr>heap := h', cache := AList.delete k (cache s)\<rparr>) (remove1 a xs)"
    by auto
  from rn m have "delete k s = (Inr True, s\<lparr>heap := h', cache := AList.delete k (cache s)\<rparr>)"
    by (simp add: delete_def state_eq_iff)
  with sp c' show ?thesis by blast
qed

lemma clear_result:
  "clear s =
     (Inr (), s\<lparr>cache := [],
                heap := (heap s)(head s := (heap s (head s))\<lparr>nxt := Some (tail s)\<rparr>,
                                 tail s := (((heap s)(head s := (heap s (head s))\<lparr>nxt := Some (tail s)\<rparr>))
                                             (tail s))\<lparr>prev := Some (head s)\<rparr>)\<rparr>)"
  by (simp add: clear_def Let_def)

lemma clear_consistent:
  assumes "linked s xs"
  shows "consistent (snd (clear s)) []"
proof -
  from assms have "head s \<noteq> tail s" "head s < fresh s" "tail s < fresh s"
    by (auto simp: linked_def)
  then show ?thesis
    by (simp add: clear_result consistent_def linked_def indexed_def link_def)
qed

subsection \<open>The sweep\<close>

lemma remove_keys_consistent:
  assumes "consistent s xs" and "distinct ks" and "set ks \<subseteq> fst ` set (cache s)"
  shows "\<exists>s' xs'. remove_keys ks s = (Inr (), s') \<and> consistent s' xs' \<and>
           length (cache s') \<le> length (cache s) \<and>
           max_size s' = max_size s \<and> hits s' = hits s \<and> misses s' = misses s"
  using assms
proof (induction ks arbitrary: s xs)
  case Nil
  then show ?case by auto
next
  case (Cons k ks)
  from Cons.prems(3) obtain a where ka: "(k, a) \<in> set (cache s)" by auto
  from Cons.prems(1) have dk: "distinct (map fst (cache s))"
    by (simp add: consistent_def indexed_def)
  with ka have m: "map_of (cache s) k = Some a" by simp
  from remove_entry [OF Cons.prems(1) m] obtain h' where
    rn: "remove_node a s = (Inr (), s\<lparr>heap := h'\<rparr>)"
    and c': "consistent (s\<lparr>heap := h', cache := AList.delete k (cache s)\<rparr>) (remove1 a xs)"
    by auto
  let ?s1 = "s\<lparr>heap := h', cache := AList.delete k (cache s),
               expired_removals := expired_removals s + 1\<rparr>"
  from c' have c1: "consistent ?s1 (remove1 a xs)"
    by (simp add: consistent_def linked_def indexed_def)
  from Cons.prems(2,3) have sub: "set ks \<subseteq> fst ` set (cache ?s1)"
    by (auto simp: AList.delete_eq) force
  from Cons.prems(2) have "distinct ks" by simp
  from Cons.IH [OF c1 this sub] obtain s' xs' where
    rk: "remove_keys ks ?s1 = (Inr (), s')" and cs': "consistent s' xs'"
    and fr: "length (cache s') \<le> length (cache ?s1)" "max_size s' = max_size ?s1"
      "hits s' = hits ?s1" "misses s' = misses ?s1"
    by blast
  from rn m rk have "remove_keys (k # ks) s = (Inr (), s')"
    by (simp add: state_eq_iff)
  moreover from fr(1) have "length (cache s') \<le> length (cache s)"
    using length_delete_le [of k "cache s"] by simp
  ultimately show ?case using cs' fr by auto
qed

lemma cleanup_expired_consistent:
  assumes c: "consistent s xs"
  shows "\<exists>s' xs'. cleanup_expired now s = (Inr (), s') \<and> consistent s' xs' \<and>
           length (cache s') \<le> length (cache s) \<and>
           max_size s' = max_size s \<and> hits s' = hits s \<and> misses s' = misses s"
proof -
  from c have dk: "distinct (map fst (cache s))" by (simp add: consistent_def indexed_def)
  then have "distinct (expired_keys now s)"
    by (simp add: expired_keys_def distinct_map_filter)
  moreover have "set (expired_keys now s) \<subseteq> fst ` set (cache s)"
    by (auto simp: expired_keys_def)
  ultimately show ?thesis
    unfolding cleanup_expired_def by (rule remove_keys_consistent [OF c])
qed


subsection \<open>Every run keeps the invariant\<close>

lemma init_consistent: "consistent (ThreadSafeCache_init ms dttl) []"
  by (simp add: consistent_def linked_def indexed_def link_def ThreadSafeCache_init_def)

lemma init_invariant: "invariant (create_cache ms dttl)"
  using init_consistent [of "case ms of None \<Rightarrow> 1000 | Some m \<Rightarrow> m" dttl]
  by (auto simp: invariant_def create_cache_def) (simp add: ThreadSafeCache_init_def)

lemma put_invariant:
  assumes inv: "invariant s" and p: "put k v ttl now s = (r, s')"
  shows "invariant s' \<and> max_size s' = max_size s \<and> hits s' = hits s \<and> misses s' = misses s \<and>
         (r = Inr () \<and> k \<noteq> None \<and> k \<noteq> Some [] \<and>
            (\<exists>e. put_expiry ttl (default_ttl s) now = Inr e) \<or>
          r = Inl ValueError \<and> (k = None \<or> k = Some []) \<and> s' = s \<or>
          r = Inl OverflowError \<and> k \<noteq> None \<and> k \<noteq> Some [] \<and>
            put_expiry ttl (default_ttl s) now = Inl OverflowError \<and> s' = s)"
proof -
  from inv obtain xs where c: "consistent s xs"
    and b: "int (length (cache s)) \<le> max 0 (max_size s)" by (auto simp: invariant_def)
  show ?thesis
  proof (cases "k = None \<or> k = Some []")
    case True
    with p have "s' = s" "r = Inl ValueError" by (auto simp: put_invalid_key)
    with inv True show ?thesis by simp
  next
    case False
    then obtain ky where k: "k = Some ky" "ky \<noteq> []" by (cases k) auto
    show ?thesis
    proof (cases "put_expiry ttl (default_ttl s) now")
      case (Inl err)
      then have "err = OverflowError" by (simp add: put_expiry_cases)
      with put_overflow [OF k(2) Inl, of v] p k Inl have "s' = s" "r = Inl OverflowError"
        "put_expiry ttl (default_ttl s) now = Inl OverflowError" by simp_all
      with inv k show ?thesis by simp
    next
      case (Inr e)
      show ?thesis
      proof (cases "map_of (cache s) ky")
        case None
        from put_new_key [OF c k(2) None Inr, of v] p k obtain h' where
          r: "r = Inr ()" and s': "if max_size s < int (length (cache s)) + 1
              then s' = s\<lparr>heap := h', fresh := Suc (fresh s),
                         cache := AList.delete (key (h' (last (fresh s # xs)))) (cache s @ [(ky, fresh s)]),
                         evictions := evictions s + 1\<rparr> \<and>
                   consistent s' (butlast (fresh s # xs))
              else s' = s\<lparr>heap := h', fresh := Suc (fresh s), cache := cache s @ [(ky, fresh s)]\<rparr> \<and>
                   consistent s' (fresh s # xs)"
          by auto
        show ?thesis
        proof (cases "max_size s < int (length (cache s)) + 1")
          case True
          with s' have eq: "s' = s\<lparr>heap := h', fresh := Suc (fresh s),
                         cache := AList.delete (key (h' (last (fresh s # xs)))) (cache s @ [(ky, fresh s)]),
                         evictions := evictions s + 1\<rparr>"
            and c': "consistent s' (butlast (fresh s # xs))"
            by (auto simp del: last.simps butlast.simps)
          from consistent_length [OF c'] consistent_length [OF c]
          have "length (cache s') = length (cache s)" by simp
          moreover from eq have "max_size s' = max_size s" "hits s' = hits s" "misses s' = misses s"
            by simp_all
          ultimately show ?thesis using c' b r k Inr by (auto simp: invariant_def)
        next
          case False
          with s' have eq: "s' = s\<lparr>heap := h', fresh := Suc (fresh s), cache := cache s @ [(ky, fresh s)]\<rparr>"
            and c': "consistent s' (fresh s # xs)" by auto
          from eq have "max_size s' = max_size s" "hits s' = hits s" "misses s' = misses s"
            "length (cache s') = Suc (length (cache s))" by simp_all
          with False c' r k Inr show ?thesis by (auto simp: invariant_def)
        qed
      next
        case (Some a)
        from put_existing_key [OF c Some Inr, of v] p k obtain h' where
          "r = Inr ()" "s' = s\<lparr>heap := h'\<rparr>" "consistent s' (a # remove1 a xs)" by auto
        with b k Inr show ?thesis by (auto simp: invariant_def)
      qed
    qed
  qed
qed

lemma get_invariant:
  assumes inv: "invariant s" and g: "get k now s = (r, s')"
  shows "invariant s' \<and> max_size s' = max_size s \<and> (\<exists>x. r = Inr x) \<and>
         (hits s' = hits s + 1 \<and> misses s' = misses s \<or>
          hits s' = hits s \<and> misses s' = misses s + 1)"
proof -
  from inv obtain xs where c: "consistent s xs"
    and b: "int (length (cache s)) \<le> max 0 (max_size s)" by (auto simp: invariant_def)
  show ?thesis
  proof (cases "map_of (cache s) k")
    case None
    with g have "r = Inr None" "s' = s\<lparr>misses := misses s + 1\<rparr>" by (simp_all add: get_absent)
    moreover from c have "consistent (s\<lparr>misses := misses s + 1\<rparr>) xs"
      by (simp add: consistent_def linked_def indexed_def)
    ultimately show ?thesis using b by (auto simp: invariant_def)
  next
    case (Some a)
    show ?thesis
    proof (cases "is_expired now (heap s a)")
      case True
      from get_expired [OF c Some True] g obtain h' where
        r: "r = Inr None"
        and eq: "s' = s\<lparr>heap := h', cache := AList.delete k (cache s),
                      expired_removals := expired_removals s + 1, misses := misses s + 1\<rparr>"
        and c': "consistent s' (remove1 a xs)" by auto
      from eq have "length (cache s') \<le> length (cache s)" by (simp add: length_delete_le)
      with eq c' b r show ?thesis by (auto simp: invariant_def)
    next
      case False
      from get_hit [OF c Some False] g obtain h' where
        "r = Inr (val (heap s a))" "s' = s\<lparr>heap := h', hits := hits s + 1\<rparr>"
        "consistent s' (a # remove1 a xs)" by auto
      with b show ?thesis by (auto simp: invariant_def)
    qed
  qed
qed

lemma delete_invariant:
  assumes inv: "invariant s" and d: "delete k s = (r, s')"
  shows "invariant s' \<and> max_size s' = max_size s \<and> hits s' = hits s \<and> misses s' = misses s \<and>
         r = Inr (map_of (cache s) k \<noteq> None)"
proof -
  from inv obtain xs where c: "consistent s xs"
    and b: "int (length (cache s)) \<le> max 0 (max_size s)" by (auto simp: invariant_def)
  show ?thesis
  proof (cases "map_of (cache s) k")
    case None
    with d inv show ?thesis by (simp add: delete_absent)
  next
    case (Some a)
    from delete_present [OF c Some] d obtain h' where
      r: "r = Inr True" and eq: "s' = s\<lparr>heap := h', cache := AList.delete k (cache s)\<rparr>"
      and c': "consistent s' (remove1 a xs)" by auto
    from eq have "length (cache s') \<le> length (cache s)" by (simp add: length_delete_le)
    with eq c' b r Some show ?thesis by (auto simp: invariant_def)
  qed
qed

lemma clear_invariant:
  assumes inv: "invariant s" and cl: "clear s = (r, s')"
  shows "invariant s' \<and> max_size s' = max_size s \<and> hits s' = hits s \<and> misses s' = misses s \<and>
         r = Inr ()"
proof -
  from inv obtain xs where "linked s xs" by (auto simp: invariant_def consistent_def)
  from clear_consistent [OF this] cl have "consistent s' []" by simp
  moreover from cl have "cache s' = []" "max_size s' = max_size s" "hits s' = hits s"
    "misses s' = misses s" "r = Inr ()" by (auto simp: clear_result)
  ultimately show ?thesis by (auto simp: invariant_def)
qed

lemma cleanup_expired_invariant:
  assumes inv: "invariant s" and sw: "cleanup_expired now s = (r, s')"
  shows "invariant s' \<and> max_size s' = max_size s \<and> hits s' = hits s \<and> misses s' = misses s \<and>
         r = Inr ()"
proof -
  from inv obtain xs where c: "consistent s xs"
    and b: "int (length (cache s)) \<le> max 0 (max_size s)" by (auto simp: invariant_def)
  from cleanup_expired_consistent [OF c, of now] sw show ?thesis
    using b by (auto simp: invariant_def)
qed

lemma step_invariant:
  assumes "invariant s"
  shows "invariant (step c s) \<and> max_size (step c s) = max_size s \<and>
         hits (step c s) + misses (step c s) = hits s + misses s + (if is_get c then 1 else 0)"
proof (cases c)
  case (Put k v ttl now)
  with put_invariant [OF assms, of k v ttl now] show ?thesis
    by (cases "put k v ttl now s") simp
next
  case (Get k now)
  with get_invariant [OF assms, of k now] show ?thesis
    by (cases "get k now s") auto
next
  case (Delete k)
  with delete_invariant [OF assms, of k] show ?thesis
    by (cases "delete k s") simp
next
  case Clear
  with clear_invariant [OF assms] show ?thesis
    by (cases "clear s") simp
next
  case GetStats
  with assms show ?thesis by (simp add: get_stats_def Let_def)
next
  case (Sweep now)
  with cleanup_expired_invariant [OF assms, of now] show ?thesis
    by (cases "cleanup_expired now s") simp
next
  case Shutdown
  with assms show ?thesis
    by (simp add: shutdown_def invariant_def consistent_def linked_def indexed_def)
qed

lemma run_invariant:
  assumes "invariant s"
  shows "invariant (run cs s) \<and> max_size (run cs s) = max_size s \<and>
         hits (run cs s) + misses (run cs s) =
           hits s + misses s + int (length (filter is_get cs))"
  using assms
proof (induction cs arbitrary: s)
  case Nil
  then show ?case by simp
next
  case (Cons c cs)
  from step_invariant [OF Cons.prems, of c] Cons.IH [of "step c s"] show ?case by auto
qed

lemma reachable_invariant: "invariant (run cs (create_cache ms dttl))"
  using run_invariant [OF init_invariant] by blast

subsection \<open>Reachable states\<close>

lemma reachable_consistent:
  assumes "s = run cs (create_cache ms dttl)"
  obtains xs where "consistent s xs" and "recency s = Some xs" and "recency_back s = Some (rev xs)"
    and "int (length (cache s)) \<le> max 0 (max_size s)"
proof -
  from reachable_invariant [of cs ms dttl] assms obtain xs where c: "consistent s xs"
    and b: "int (length (cache s)) \<le> max 0 (max_size s)"
    by (auto simp: invariant_def)
  from c have "linked s xs" by (simp add: consistent_def)
  from c linked_recency [OF this] linked_recency_back [OF this] b show thesis by (rule that)
qed

lemma distinct_count_once: "distinct xs \<Longrightarrow> a \<in> set xs \<Longrightarrow> count_list xs a = 1"
  by (induction xs) auto

lemma indexed_entry:
  assumes "indexed s xs" and "(k, a) \<in> set (cache s)"
  shows "map_of (cache s) k = Some a"
  using assms by (simp add: indexed_def)

subsection \<open>The index and the recency sequence\<close>

text \<open>C2. After every call of a run (put, get, delete, clear, also the sweep), walking the
  list forward from the head sentinel to the tail sentinel, or backward, reaches exactly
  the nodes the dictionary refers to: as many nodes as keys, each indexed node once, and
  no node of the list without its key in the dictionary.\<close>

theorem index_matches_recency_sequence:
  assumes "s = run cs (create_cache ms dttl)"
  shows "\<exists>xs. recency s = Some xs \<and> recency_back s = Some (rev xs) \<and>
           length xs = length (cache s) \<and> set xs = snd ` set (cache s) \<and>
           distinct xs \<and> distinct (map fst (cache s)) \<and>
           head s \<notin> set xs \<and> tail s \<notin> set xs \<and>
           (\<forall>(k, a) \<in> set (cache s). count_list xs a = 1 \<and> key (heap s a) = k)"
proof -
  from assms obtain xs where c: "consistent s xs" and r: "recency s = Some xs"
    and rb: "recency_back s = Some (rev xs)" by (rule reachable_consistent)
  from c have d: "distinct xs" "head s \<notin> set xs" "tail s \<notin> set xs"
    by (simp_all add: consistent_def linked_def)
  from c have ix: "indexed s xs" by (simp add: consistent_def)
  then have dk: "distinct (map fst (cache s))" and eq: "set xs = snd ` set (cache s)"
    by (simp_all add: indexed_def)
  have once: "\<forall>(k, a) \<in> set (cache s). count_list xs a = 1 \<and> key (heap s a) = k"
  proof (clarify)
    fix k a assume "(k, a) \<in> set (cache s)"
    from indexed_entry [OF ix this] have m: "map_of (cache s) k = Some a" .
    from d(1) indexed_lookup(1) [OF ix m] have "count_list xs a = 1"
      by (rule distinct_count_once)
    with indexed_lookup(2) [OF ix m] show "count_list xs a = 1 \<and> key (heap s a) = k" by simp
  qed
  from consistent_length [OF c] have len: "length xs = length (cache s)" by simp
  from r rb len eq d dk once show ?thesis by blast
qed


subsection \<open>The example state\<close>

lemma two_entries_state:
  "recency two_entries = Some [2, 3]" "recency_back two_entries = Some [3, 2]"
  "cache two_entries = [(''a'', 2), (''b'', 3)]" "fresh two_entries = 4"
  "max_size two_entries = 2" "evictions two_entries = 0"
  "hits two_entries = 1" "misses two_entries = 0" "expired_removals two_entries = 0"
  "head two_entries = 0" "tail two_entries = 1" "default_ttl two_entries = None"
  by (simp_all add: two_entries_def engine_defs)

lemma two_entries_nodes:
  "key (heap two_entries 2) = ''a''" "key (heap two_entries 3) = ''b''"
  "val (heap two_entries 2) = Some ''1''" "val (heap two_entries 3) = Some ''2''"
  "expiry (heap two_entries 2) = 0" "expiry (heap two_entries 3) = 16"
  by (simp_all add: two_entries_def engine_defs)

theorem index_matches_recency_sequence_witness:
  "recency two_entries = Some [2, 3] \<and> recency_back two_entries = Some [3, 2] \<and>
   map snd (cache two_entries) = [2, 3] \<and>
   (\<exists>xs. recency two_entries = Some xs \<and> length xs = length (cache two_entries) \<and>
      set xs = snd ` set (cache two_entries) \<and> distinct xs)"
  using index_matches_recency_sequence [OF two_entries_def]
  by (simp add: two_entries_state)


subsection \<open>Capacity and eviction\<close>

text \<open>C1. In a run of an engine built with a positive \<open>max_size\<close>, the dictionary has at
  most \<open>max_size\<close> entries after every put, and a put that raises leaves the state as it
  was. A put of a valid key that is not in the dictionary, with a ttl that can be
  converted, returns normally with the new node at the front of the list; when the
  insertion makes the number of entries exceed \<open>max_size\<close>, exactly the node before the
  tail sentinel leaves the list and its key leaves the dictionary, and \<open>evictions\<close>
  grows by one; otherwise nothing is evicted.\<close>

theorem put_new_key_evicts_lru:
  assumes reach: "s = run cs (create_cache ms dttl)"
    and pos: "0 < max_size s"
    and p: "put k v ttl now s = (r, s')"
  shows "max_size s' = max_size s \<and> int (length (cache s')) \<le> max_size s' \<and>
     (r = Inr () \<or> s' = s) \<and>
     (\<forall>ky e. k = Some ky \<and> ky \<noteq> [] \<and> map_of (cache s) ky = None \<and>
             put_expiry ttl (default_ttl s) now = Inr e \<longrightarrow>
        r = Inr () \<and> map_of (cache s') ky = Some (fresh s) \<and>
        key (heap s' (fresh s)) = ky \<and> val (heap s' (fresh s)) = v \<and>
        expiry (heap s' (fresh s)) = e \<and>
        (\<exists>xs. recency s = Some xs \<and>
          (if max_size s < int (length (cache s)) + 1
           then xs \<noteq> [] \<and> map_of (cache s) (key (heap s (last xs))) = Some (last xs) \<and>
                cache s' = AList.delete (key (heap s (last xs))) (cache s @ [(ky, fresh s)]) \<and>
                map_of (cache s') (key (heap s (last xs))) = None \<and>
                recency s' = Some (fresh s # butlast xs) \<and>
                length (cache s') = length (cache s) \<and>
                evictions s' = evictions s + 1
           else cache s' = cache s @ [(ky, fresh s)] \<and>
                recency s' = Some (fresh s # xs) \<and>
                evictions s' = evictions s)))"
proof -
  from reachable_invariant [of cs ms dttl] reach have inv: "invariant s" by simp
  from put_invariant [OF inv p] pos
  have bound: "max_size s' = max_size s \<and> int (length (cache s')) \<le> max_size s'"
    by (auto simp: invariant_def)
  from put_invariant [OF inv p] have stop: "r = Inr () \<or> s' = s" by blast
  from reach obtain xs where c: "consistent s xs" and rc: "recency s = Some xs"
    by (rule reachable_consistent)
  have new: "r = Inr () \<and> map_of (cache s') ky = Some (fresh s) \<and>
        key (heap s' (fresh s)) = ky \<and> val (heap s' (fresh s)) = v \<and>
        expiry (heap s' (fresh s)) = e \<and>
        (\<exists>xs. recency s = Some xs \<and>
          (if max_size s < int (length (cache s)) + 1
           then xs \<noteq> [] \<and> map_of (cache s) (key (heap s (last xs))) = Some (last xs) \<and>
                cache s' = AList.delete (key (heap s (last xs))) (cache s @ [(ky, fresh s)]) \<and>
                map_of (cache s') (key (heap s (last xs))) = None \<and>
                recency s' = Some (fresh s # butlast xs) \<and>
                length (cache s') = length (cache s) \<and>
                evictions s' = evictions s + 1
           else cache s' = cache s @ [(ky, fresh s)] \<and>
                recency s' = Some (fresh s # xs) \<and>
                evictions s' = evictions s))"
    if k: "k = Some ky" "ky \<noteq> []" and m: "map_of (cache s) ky = None"
      and pe: "put_expiry ttl (default_ttl s) now = Inr e" for ky e
  proof -
    from p k(1) have "put (Some ky) v ttl now s = (r, s')" by simp
    note eff = put_new_key_effect [OF c pos k(2) m pe this]
    show ?thesis
    proof (cases "max_size s < int (length (cache s)) + 1")
      case True
      note ev = eff(2) [OF True]
      from ev have "recency s' = Some (fresh s # butlast xs)"
        by (simp add: consistent_def linked_recency)
      with eff(1) ev rc show ?thesis unfolding if_P [OF True] by blast
    next
      case False
      note ins = eff(3) [OF False]
      from ins have "recency s' = Some (fresh s # xs)"
        by (simp add: consistent_def linked_recency)
      with eff(1) ins rc show ?thesis unfolding if_not_P [OF False] by blast
    qed
  qed
  from bound stop new show ?thesis by blast
qed

theorem put_new_key_evicts_lru_witness:
  "0 < max_size two_entries \<and> map_of (cache two_entries) ''c'' = None \<and>
   recency two_entries = Some [2, 3] \<and>
   fst (put (Some ''c'') (Some ''3'') None 13 two_entries) = Inr () \<and>
   cache (snd (put (Some ''c'') (Some ''3'') None 13 two_entries)) = [(''a'', 2), (''c'', 4)] \<and>
   recency (snd (put (Some ''c'') (Some ''3'') None 13 two_entries)) = Some [4, 2] \<and>
   evictions (snd (put (Some ''c'') (Some ''3'') None 13 two_entries)) = 1 \<and>
   int (length (cache (snd (put (Some ''c'') (Some ''3'') None 13 two_entries)))) \<le> 2"
proof -
  obtain r s' where p: "put (Some ''c'') (Some ''3'') None 13 two_entries = (r, s')"
    by (cases "put (Some ''c'') (Some ''3'') None 13 two_entries")
  have pos: "0 < max_size two_entries" by (simp add: two_entries_state)
  have new: "map_of (cache two_entries) ''c'' = None" by (simp add: two_entries_state)
  have pe: "put_expiry None (default_ttl two_entries) 13 = Inr 0"
    by (simp add: two_entries_state put_expiry_def)
  note inst = put_new_key_evicts_lru [OF two_entries_def pos p]
  from inst [THEN conjunct1] inst [THEN conjunct2, THEN conjunct1]
  have "max_size s' = 2 \<and> int (length (cache s')) \<le> max_size s'"
    by (simp add: two_entries_state)
  moreover from inst [THEN conjunct2, THEN conjunct2, THEN conjunct2, rule_format, of "''c''" 0]
    new pe
  have "r = Inr () \<and> cache s' = [(''a'', 2), (''c'', 4)] \<and> recency s' = Some [4, 2] \<and>
        evictions s' = 1"
    by (simp add: two_entries_state two_entries_nodes)
  ultimately show ?thesis using p pos new by (simp add: two_entries_state)
qed

subsection \<open>get\<close>

lemma repeated_get_absent:
  assumes "map_of (cache s) ky = None"
  shows "run (map (Get ky) nows) s = s\<lparr>misses := misses s + int (length nows)\<rparr>"
  using assms
proof (induction nows arbitrary: s)
  case Nil
  then show ?case by simp
next
  case (Cons now nows)
  let ?s1 = "s\<lparr>misses := misses s + 1\<rparr>"
  from Cons.prems have "step (Get ky now) s = ?s1" by (simp add: get_absent)
  then have "run (map (Get ky) (now # nows)) s = run (map (Get ky) nows) ?s1" by simp
  also from Cons.prems have "\<dots> = ?s1\<lparr>misses := misses ?s1 + int (length nows)\<rparr>"
    by (intro Cons.IH) simp
  also have "\<dots> = s\<lparr>misses := misses s + int (length (now # nows))\<rparr>" by simp
  finally show ?case .
qed

text \<open>The three ways through get, with the test that \<open>_is_expired\<close> makes. In a run, a
  get of a key that is not in the dictionary adds one to \<open>misses\<close>, returns \<open>None\<close>
  and changes nothing else. A get of a key whose node \<open>_is_expired\<close> finds expired at
  the clock reading of the call takes the key out of the dictionary and the node out of
  the list, adds one to \<open>expired_removals\<close> and one to \<open>misses\<close> and returns
  \<open>None\<close>; however often the same key is requested again afterwards,
  \<open>expired_removals\<close> stays as it is and \<open>None\<close> is returned. Any other get moves
  the node to the front of the list, adds one to \<open>hits\<close> and returns the value of the
  node.\<close>

lemma get_cases:
  assumes reach: "s = run cs (create_cache ms dttl)"
    and rc: "recency s = Some xs"
    and g: "get ky now s = (r, s')"
  shows
    "(map_of (cache s) ky = None \<longrightarrow> r = Inr None \<and> s' = s\<lparr>misses := misses s + 1\<rparr>) \<and>
     (\<forall>a. map_of (cache s) ky = Some a \<and> is_expired now (heap s a) \<longrightarrow>
        r = Inr None \<and>
        cache s' = AList.delete ky (cache s) \<and> map_of (cache s') ky = None \<and>
        recency s' = Some (remove1 a xs) \<and> a \<notin> set (remove1 a xs) \<and>
        expired_removals s' = expired_removals s + 1 \<and> misses s' = misses s + 1 \<and>
        hits s' = hits s \<and> evictions s' = evictions s \<and>
        (\<forall>nows now'.
           expired_removals (run (map (Get ky) nows) s') = expired_removals s + 1 \<and>
           fst (get ky now' (run (map (Get ky) nows) s')) = Inr None)) \<and>
     (\<forall>a. map_of (cache s) ky = Some a \<and> \<not> is_expired now (heap s a) \<longrightarrow>
        r = Inr (val (heap s a)) \<and>
        cache s' = cache s \<and> recency s' = Some (a # remove1 a xs) \<and>
        hits s' = hits s + 1 \<and> misses s' = misses s \<and>
        expired_removals s' = expired_removals s \<and> evictions s' = evictions s)"
proof -
  from reach obtain ys where c: "consistent s ys" and "recency s = Some ys"
    by (rule reachable_consistent)
  with rc have c: "consistent s xs" by simp
  then have d: "distinct xs" by (simp add: consistent_def linked_def)
  have absent: "r = Inr None \<and> s' = s\<lparr>misses := misses s + 1\<rparr>" if "map_of (cache s) ky = None"
    using get_absent [OF that, of now] g by simp
  have expired: "r = Inr None \<and>
        cache s' = AList.delete ky (cache s) \<and> map_of (cache s') ky = None \<and>
        recency s' = Some (remove1 a xs) \<and> a \<notin> set (remove1 a xs) \<and>
        expired_removals s' = expired_removals s + 1 \<and> misses s' = misses s + 1 \<and>
        hits s' = hits s \<and> evictions s' = evictions s \<and>
        (\<forall>nows now'.
           expired_removals (run (map (Get ky) nows) s') = expired_removals s + 1 \<and>
           fst (get ky now' (run (map (Get ky) nows) s')) = Inr None)"
    if m: "map_of (cache s) ky = Some a" and ex: "is_expired now (heap s a)" for a
  proof -
    from get_expired [OF c m ex] g obtain h' where
      r: "r = Inr None"
      and eq: "s' = s\<lparr>heap := h', cache := AList.delete ky (cache s),
                     expired_removals := expired_removals s + 1, misses := misses s + 1\<rparr>"
      and c': "consistent s' (remove1 a xs)" by auto
    from eq have gone: "map_of (cache s') ky = None" by (simp add: delete_conv')
    have again: "expired_removals (run (map (Get ky) nows) s') = expired_removals s + 1 \<and>
           fst (get ky now' (run (map (Get ky) nows) s')) = Inr None" for nows now'
    proof -
      let ?t = "run (map (Get ky) nows) s'"
      from repeated_get_absent [OF gone, of nows]
      have t: "?t = s'\<lparr>misses := misses s' + int (length nows)\<rparr>" .
      then have "map_of (cache ?t) ky = None" using gone by simp
      from get_absent [OF this, of now'] have "fst (get ky now' ?t) = Inr None" by simp
      moreover from t eq have "expired_removals ?t = expired_removals s + 1" by simp
      ultimately show ?thesis by simp
    qed
    from c' have "recency s' = Some (remove1 a xs)" by (simp add: consistent_def linked_recency)
    moreover from d have "a \<notin> set (remove1 a xs)" by simp
    moreover from eq have "cache s' = AList.delete ky (cache s)"
      "expired_removals s' = expired_removals s + 1" "misses s' = misses s + 1"
      "hits s' = hits s" "evictions s' = evictions s" by simp_all
    ultimately show ?thesis using r gone again by blast
  qed
  have hit: "r = Inr (val (heap s a)) \<and>
        cache s' = cache s \<and> recency s' = Some (a # remove1 a xs) \<and>
        hits s' = hits s + 1 \<and> misses s' = misses s \<and>
        expired_removals s' = expired_removals s \<and> evictions s' = evictions s"
    if m: "map_of (cache s) ky = Some a" and ex: "\<not> is_expired now (heap s a)" for a
  proof -
    from get_hit [OF c m ex] g obtain h' where
      r: "r = Inr (val (heap s a))" and eq: "s' = s\<lparr>heap := h', hits := hits s + 1\<rparr>"
      and c': "consistent s' (a # remove1 a xs)" by auto
    from c' have "recency s' = Some (a # remove1 a xs)"
      by (simp add: consistent_def linked_recency)
    moreover from eq have "cache s' = cache s" "hits s' = hits s + 1" "misses s' = misses s"
      "expired_removals s' = expired_removals s" "evictions s' = evictions s" by simp_all
    ultimately show ?thesis using r by blast
  qed
  show ?thesis
  proof (rule conjI [OF _ conjI])
  qed (intro allI impI, (elim conjE)?, rule absent expired hit; assumption)+
qed


lemma get_cases_example:
  "is_expired 20 (heap two_entries 3) \<and>
   fst (get ''b'' 20 two_entries) = Inr None \<and>
   cache (snd (get ''b'' 20 two_entries)) = [(''a'', 2)] \<and>
   recency (snd (get ''b'' 20 two_entries)) = Some [2] \<and>
   expired_removals (snd (get ''b'' 20 two_entries)) = 1 \<and>
   misses (snd (get ''b'' 20 two_entries)) = 1 \<and>
   expired_removals (run [Get ''b'' 21, Get ''b'' 22] (snd (get ''b'' 20 two_entries))) = 1 \<and>
   fst (get ''a'' 20 two_entries) = Inr (Some ''1'') \<and>
   recency (snd (get ''a'' 20 two_entries)) = Some [2, 3] \<and>
   fst (get ''b'' 16 two_entries) = Inr (Some ''2'') \<and>
   recency (snd (get ''b'' 16 two_entries)) = Some [3, 2] \<and>
   hits (snd (get ''b'' 16 two_entries)) = 2 \<and>
   get ''zz'' 20 two_entries = (Inr None, two_entries\<lparr>misses := 1\<rparr>)"
proof -
  note rc = two_entries_state(1)
  have ma: "map_of (cache two_entries) ''a'' = Some 2"
    and mb: "map_of (cache two_entries) ''b'' = Some 3"
    and mz: "map_of (cache two_entries) ''zz'' = None"
    by (simp_all add: two_entries_state)
  have ex: "is_expired 20 (heap two_entries 3)" "\<not> is_expired 16 (heap two_entries 3)"
    "\<not> is_expired 20 (heap two_entries 2)"
    by (simp_all add: is_expired_def two_entries_nodes)
  obtain r1 s1 where g1: "get ''b'' 20 two_entries = (r1, s1)" by (cases "get ''b'' 20 two_entries")
  note e1 = get_cases [OF two_entries_def rc g1, THEN conjunct2, THEN conjunct1, rule_format,
      OF conjI, OF mb ex(1)]
  from e1 have "expired_removals (run (map (Get ''b'') [21, 22]) s1) =
      expired_removals two_entries + 1" by blast
  then have "expired_removals (run [Get ''b'' 21, Get ''b'' 22] s1) = 1"
    by (simp add: two_entries_state)
  moreover from e1
  have "r1 = Inr None \<and> cache s1 = [(''a'', 2)] \<and> recency s1 = Some [2] \<and>
        expired_removals s1 = 1 \<and> misses s1 = 1"
    by (simp add: two_entries_state)
  ultimately have "r1 = Inr None \<and> cache s1 = [(''a'', 2)] \<and> recency s1 = Some [2] \<and>
        expired_removals s1 = 1 \<and> misses s1 = 1 \<and>
        expired_removals (run [Get ''b'' 21, Get ''b'' 22] s1) = 1" by blast
  with g1 have expired: "fst (get ''b'' 20 two_entries) = Inr None \<and>
      cache (snd (get ''b'' 20 two_entries)) = [(''a'', 2)] \<and>
      recency (snd (get ''b'' 20 two_entries)) = Some [2] \<and>
      expired_removals (snd (get ''b'' 20 two_entries)) = 1 \<and>
      misses (snd (get ''b'' 20 two_entries)) = 1 \<and>
      expired_removals (run [Get ''b'' 21, Get ''b'' 22] (snd (get ''b'' 20 two_entries))) = 1"
    by simp
  obtain r2 s2 where g2: "get ''a'' 20 two_entries = (r2, s2)" by (cases "get ''a'' 20 two_entries")
  from get_cases [OF two_entries_def rc g2, THEN conjunct2, THEN conjunct2, rule_format, of 2]
    ma ex(3)
  have "r2 = Inr (Some ''1'') \<and> recency s2 = Some [2, 3]"
    by (simp add: two_entries_state two_entries_nodes)
  with g2 have hit: "fst (get ''a'' 20 two_entries) = Inr (Some ''1'') \<and>
      recency (snd (get ''a'' 20 two_entries)) = Some [2, 3]" by simp
  obtain r3 s3 where g3: "get ''b'' 16 two_entries = (r3, s3)" by (cases "get ''b'' 16 two_entries")
  from get_cases [OF two_entries_def rc g3, THEN conjunct2, THEN conjunct2, rule_format, of 3]
    mb ex(2)
  have "r3 = Inr (Some ''2'') \<and> recency s3 = Some [3, 2] \<and> hits s3 = 2"
    by (simp add: two_entries_state two_entries_nodes)
  with g3 have boundary: "fst (get ''b'' 16 two_entries) = Inr (Some ''2'') \<and>
      recency (snd (get ''b'' 16 two_entries)) = Some [3, 2] \<and>
      hits (snd (get ''b'' 16 two_entries)) = 2" by simp
  obtain r4 s4 where g4: "get ''zz'' 20 two_entries = (r4, s4)" by (cases "get ''zz'' 20 two_entries")
  from get_cases [OF two_entries_def rc g4, THEN conjunct1, rule_format] mz
  have "r4 = Inr None \<and> s4 = two_entries\<lparr>misses := 1\<rparr>"
    by (simp add: two_entries_state)
  with g4 have absent: "get ''zz'' 20 two_entries = (Inr None, two_entries\<lparr>misses := 1\<rparr>)"
    by simp
  from ex(1) expired hit boundary absent show ?thesis by simp
qed


text \<open>C3. The key \<open>k\<close> was put at clock reading 1700000000 with a ttl of -2000000000, so
  its node has the expiry -300000000: an expiry is set and every clock reading from 0 on
  is later. A get of \<open>k\<close> at any clock reading still returns the value and counts a hit;
  the key stays in the dictionary and the node in the list, and neither \<open>misses\<close> nor
  \<open>expired_removals\<close> grows.\<close>

theorem get_returns_value_past_negative_expiry:
  "map_of (cache immortal_example) ''k'' = Some 2 \<and>
   expiry (heap immortal_example 2) \<noteq> 0 \<and> expiry (heap immortal_example 2) < 0 \<and>
   recency immortal_example = Some [2] \<and>
   (\<forall>now. fst (get ''k'' now immortal_example) = Inr (Some ''v'') \<and>
          cache (snd (get ''k'' now immortal_example)) = [(''k'', 2)] \<and>
          recency (snd (get ''k'' now immortal_example)) = Some [2] \<and>
          hits (snd (get ''k'' now immortal_example)) = hits immortal_example + 1 \<and>
          misses (snd (get ''k'' now immortal_example)) = misses immortal_example \<and>
          expired_removals (snd (get ''k'' now immortal_example)) = 0)"
  by (simp add: immortal_example_def engine_defs)


subsection \<open>put on a key that is present\<close>




subsection \<open>clear and delete\<close>

text \<open>C8. In a run, clear empties the dictionary and links the two sentinels to each other,
  so that the list is empty, and leaves the four counters as they are. delete returns
  \<open>True\<close> exactly when the key is in the dictionary; then the key leaves the dictionary
  and its node leaves the list; otherwise the state is unchanged. In both cases the key
  is absent afterwards and the counters are as before.\<close>

theorem clear_and_delete_effects:
  assumes reach: "s = run cs (create_cache ms dttl)"
    and rc: "recency s = Some xs"
    and cl: "clear s = (r1, s1)"
    and de: "delete ky s = (r2, s2)"
  shows "r1 = Inr () \<and> cache s1 = [] \<and>
         nxt (heap s1 (head s1)) = Some (tail s1) \<and> prev (heap s1 (tail s1)) = Some (head s1) \<and>
         recency s1 = Some [] \<and> recency_back s1 = Some [] \<and>
         hits s1 = hits s \<and> misses s1 = misses s \<and> evictions s1 = evictions s \<and>
         expired_removals s1 = expired_removals s \<and>
         r2 = Inr (map_of (cache s) ky \<noteq> None) \<and>
         cache s2 = AList.delete ky (cache s) \<and> map_of (cache s2) ky = None \<and>
         hits s2 = hits s \<and> misses s2 = misses s \<and> evictions s2 = evictions s \<and>
         expired_removals s2 = expired_removals s \<and>
         (map_of (cache s) ky = None \<longrightarrow> s2 = s) \<and>
         (\<forall>a. map_of (cache s) ky = Some a \<longrightarrow>
            recency s2 = Some (remove1 a xs) \<and> a \<notin> set (remove1 a xs))"
proof -
  from reach obtain ys where "consistent s ys" and "recency s = Some ys"
    by (rule reachable_consistent)
  with rc have c: "consistent s xs" by simp
  then have l: "linked s xs" by (simp add: consistent_def)
  from l have ends: "head s \<noteq> tail s" by (auto simp: linked_def)
  from clear_consistent [OF l] cl have "linked s1 []" by (simp add: consistent_def)
  from linked_recency [OF this] linked_recency_back [OF this]
  have walk1: "recency s1 = Some []" "recency_back s1 = Some []" by simp_all
  from cl ends have clr: "r1 = Inr ()" "cache s1 = []"
    "nxt (heap s1 (head s1)) = Some (tail s1)" "prev (heap s1 (tail s1)) = Some (head s1)"
    "hits s1 = hits s" "misses s1 = misses s" "evictions s1 = evictions s"
    "expired_removals s1 = expired_removals s"
    by (auto simp: clear_result)
  have del: "r2 = Inr (map_of (cache s) ky \<noteq> None) \<and>
         cache s2 = AList.delete ky (cache s) \<and> map_of (cache s2) ky = None \<and>
         hits s2 = hits s \<and> misses s2 = misses s \<and> evictions s2 = evictions s \<and>
         expired_removals s2 = expired_removals s \<and>
         (map_of (cache s) ky = None \<longrightarrow> s2 = s) \<and>
         (\<forall>a. map_of (cache s) ky = Some a \<longrightarrow>
            recency s2 = Some (remove1 a xs) \<and> a \<notin> set (remove1 a xs))"
  proof (cases "map_of (cache s) ky")
    case None
    then have "ky \<notin> fst ` set (cache s)" by (simp add: map_of_eq_None_iff)
    with None de show ?thesis by (simp add: delete_absent)
  next
    case (Some a)
    from delete_present [OF c Some] de obtain h' where
      r: "r2 = Inr True" and eq: "s2 = s\<lparr>heap := h', cache := AList.delete ky (cache s)\<rparr>"
      and c': "consistent s2 (remove1 a xs)" by auto
    from c' have "recency s2 = Some (remove1 a xs)" by (simp add: consistent_def linked_recency)
    moreover from l have "a \<notin> set (remove1 a xs)" by (simp add: linked_def)
    moreover from eq have "cache s2 = AList.delete ky (cache s)" "hits s2 = hits s"
      "misses s2 = misses s" "evictions s2 = evictions s"
      "expired_removals s2 = expired_removals s" by simp_all
    ultimately show ?thesis using r Some by (simp add: delete_conv')
  qed
  from clr walk1 del show ?thesis by blast
qed

theorem clear_and_delete_effects_witness:
  "recency two_entries = Some [2, 3] \<and>
   fst (clear two_entries) = Inr () \<and> cache (snd (clear two_entries)) = [] \<and>
   recency (snd (clear two_entries)) = Some [] \<and> hits (snd (clear two_entries)) = 1 \<and>
   fst (delete ''a'' two_entries) = Inr True \<and>
   cache (snd (delete ''a'' two_entries)) = [(''b'', 3)] \<and>
   recency (snd (delete ''a'' two_entries)) = Some [3] \<and>
   hits (snd (delete ''a'' two_entries)) = 1 \<and> misses (snd (delete ''a'' two_entries)) = 0 \<and>
   delete ''zz'' two_entries = (Inr False, two_entries) \<and>
   fst (delete ''a'' (snd (delete ''a'' two_entries))) = Inr False"
proof -
  have ma: "map_of (cache two_entries) ''a'' = Some 2"
    and mz: "map_of (cache two_entries) ''zz'' = None"
    by (simp_all add: two_entries_state)
  obtain r1 s1 where cl: "clear two_entries = (r1, s1)" by (cases "clear two_entries")
  obtain r2 s2 where d1: "delete ''a'' two_entries = (r2, s2)" by (cases "delete ''a'' two_entries")
  obtain r3 s3 where d2: "delete ''zz'' two_entries = (r3, s3)"
    by (cases "delete ''zz'' two_entries")
  from clear_and_delete_effects [OF two_entries_def two_entries_state(1) cl d1] ma
  have one: "r1 = Inr () \<and> cache s1 = [] \<and> recency s1 = Some [] \<and> hits s1 = 1 \<and>
      r2 = Inr True \<and> cache s2 = [(''b'', 3)] \<and> recency s2 = Some [3] \<and> hits s2 = 1 \<and>
      misses s2 = 0 \<and> map_of (cache s2) ''a'' = None"
    by (simp add: two_entries_state)
  from clear_and_delete_effects [OF two_entries_def two_entries_state(1) cl d2] mz
  have two: "r3 = Inr False \<and> s3 = two_entries" by simp
  from one have "fst (delete ''a'' s2) = Inr False" by (simp add: delete_absent)
  with one two cl d1 d2 show ?thesis by (simp add: two_entries_state(1))
qed

subsection \<open>Counting requests\<close>

text \<open>C10. In a run, a get adds one to exactly one of \<open>hits\<close> and \<open>misses\<close>; put,
  delete, clear and the sweep change neither; so \<open>total_requests\<close> of \<open>get_stats\<close> is
  the number of get calls of the run.\<close>

theorem requests_are_gets:
  assumes reach: "s = run cs (create_cache ms dttl)"
  shows "(hits (snd (get ky now s)) = hits s + 1 \<and> misses (snd (get ky now s)) = misses s \<or>
          hits (snd (get ky now s)) = hits s \<and> misses (snd (get ky now s)) = misses s + 1) \<and>
         hits (snd (put k v ttl now s)) = hits s \<and> misses (snd (put k v ttl now s)) = misses s \<and>
         hits (snd (delete ky s)) = hits s \<and> misses (snd (delete ky s)) = misses s \<and>
         hits (snd (clear s)) = hits s \<and> misses (snd (clear s)) = misses s \<and>
         hits (snd (cleanup_expired now s)) = hits s \<and>
         misses (snd (cleanup_expired now s)) = misses s \<and>
         (\<exists>st. get_stats s = (Inr st, s) \<and>
               total_requests st = int (length (filter is_get cs)))"
proof -
  from reachable_invariant [of cs ms dttl] reach have inv: "invariant s" by simp
  from get_invariant [OF inv, of ky now] have g:
    "hits (snd (get ky now s)) = hits s + 1 \<and> misses (snd (get ky now s)) = misses s \<or>
     hits (snd (get ky now s)) = hits s \<and> misses (snd (get ky now s)) = misses s + 1"
    by (cases "get ky now s") auto
  from put_invariant [OF inv, of k v ttl now] have p:
    "hits (snd (put k v ttl now s)) = hits s \<and> misses (snd (put k v ttl now s)) = misses s"
    by (cases "put k v ttl now s") simp
  from delete_invariant [OF inv, of ky] have d:
    "hits (snd (delete ky s)) = hits s \<and> misses (snd (delete ky s)) = misses s"
    by (cases "delete ky s") simp
  from clear_invariant [OF inv] have c:
    "hits (snd (clear s)) = hits s \<and> misses (snd (clear s)) = misses s"
    by (cases "clear s") simp
  from cleanup_expired_invariant [OF inv, of now] have w:
    "hits (snd (cleanup_expired now s)) = hits s \<and> misses (snd (cleanup_expired now s)) = misses s"
    by (cases "cleanup_expired now s") simp
  from run_invariant [OF init_invariant, of cs ms dttl] reach
  have "hits s + misses s = int (length (filter is_get cs))"
    by (simp add: create_cache_def ThreadSafeCache_init_def)
  then have "\<exists>st. get_stats s = (Inr st, s) \<and> total_requests st = int (length (filter is_get cs))"
    by (simp add: get_stats_def Let_def)
  with g p d c w show ?thesis by simp
qed

theorem requests_are_gets_witness:
  "(\<exists>st. get_stats two_entries = (Inr st, two_entries) \<and> total_requests st = 1) \<and>
   hits two_entries + misses two_entries = 1 \<and>
   hits (snd (get ''zz'' 20 two_entries)) + misses (snd (get ''zz'' 20 two_entries)) = 2 \<and>
   hits (snd (put (Some ''c'') None None 20 two_entries)) = 1 \<and>
   misses (snd (put (Some ''c'') None None 20 two_entries)) = 0"
  using requests_are_gets [OF two_entries_def, of "''zz''" 20 "Some ''c''" None None]
  by (auto simp: two_entries_state)

subsection \<open>Failures\<close>

text \<open>C6. A put with the key \<open>None\<close> or the empty string raises \<open>ValueError\<close>, and a put
  with any other key raises \<open>OverflowError\<close> when the ttl that applies is too large for
  a float; either way the state \<open>t\<close> it was called in, whatever it is, is left exactly
  as it was. In a run no other call raises: a put with a valid key and a ttl that can be
  converted, get, delete, clear, \<open>get_stats\<close>, the sweep and shutdown all return
  normally.\<close>

theorem put_failures_leave_state:
  assumes reach: "s = run cs (create_cache ms dttl)"
  shows "put None v ttl now t = (Inl ValueError, t) \<and>
         put (Some []) v ttl now t = (Inl ValueError, t) \<and>
         (\<forall>ky. ky \<noteq> [] \<and> ttl_overflows ttl (default_ttl t) \<longrightarrow>
               put (Some ky) v ttl now t = (Inl OverflowError, t)) \<and>
         (\<forall>ky. ky \<noteq> [] \<and> \<not> ttl_overflows ttl (default_ttl s) \<longrightarrow>
               fst (put (Some ky) v ttl now s) = Inr ()) \<and>
         (\<exists>x. fst (get ky now s) = Inr x) \<and>
         fst (delete ky s) = Inr (map_of (cache s) ky \<noteq> None) \<and>
         fst (clear s) = Inr () \<and>
         (\<exists>st. fst (get_stats s) = Inr st) \<and>
         fst (cleanup_expired now s) = Inr () \<and>
         fst (shutdown s) = Inr ()"
proof -
  from reachable_invariant [of cs ms dttl] reach have inv: "invariant s" by simp
  have "put (Some ky) v ttl now t = (Inl OverflowError, t)"
    if "ky \<noteq> []" "ttl_overflows ttl (default_ttl t)" for ky
    using that put_overflow [of ky ttl t now OverflowError v] by (simp add: put_expiry_total)
  moreover have "fst (put (Some ky) v ttl now s) = Inr ()"
    if "ky \<noteq> []" "\<not> ttl_overflows ttl (default_ttl s)" for ky
    using put_invariant [OF inv, of "Some ky" v ttl now] that
    by (cases "put (Some ky) v ttl now s") (auto simp: put_expiry_cases)
  moreover from get_invariant [OF inv, of ky now] have "\<exists>x. fst (get ky now s) = Inr x"
    by (cases "get ky now s") auto
  moreover from delete_invariant [OF inv, of ky]
  have "fst (delete ky s) = Inr (map_of (cache s) ky \<noteq> None)"
    by (cases "delete ky s") simp
  moreover from clear_invariant [OF inv] have "fst (clear s) = Inr ()"
    by (cases "clear s") simp
  moreover from cleanup_expired_invariant [OF inv, of now]
  have "fst (cleanup_expired now s) = Inr ()"
    by (cases "cleanup_expired now s") simp
  moreover have "\<exists>st. fst (get_stats s) = Inr st" by (simp add: get_stats_def Let_def)
  moreover have "fst (shutdown s) = Inr ()" by (simp add: shutdown_def)
  ultimately show ?thesis by (simp add: put_invalid_key)
qed

theorem put_failures_leave_state_witness:
  "put None (Some ''x'') None 20 two_entries = (Inl ValueError, two_entries) \<and>
   put (Some []) (Some ''x'') None 20 two_entries = (Inl ValueError, two_entries) \<and>
   ttl_overflows (Some (2 ^ 1024 - 2 ^ 970)) (default_ttl two_entries) \<and>
   put (Some ''c'') (Some ''x'') (Some (2 ^ 1024 - 2 ^ 970)) 20 two_entries =
     (Inl OverflowError, two_entries) \<and>
   \<not> ttl_overflows (Some (2 ^ 1024 - 2 ^ 970 - 1)) (default_ttl two_entries) \<and>
   fst (put (Some ''c'') (Some ''x'') (Some (2 ^ 1024 - 2 ^ 970 - 1)) 20 two_entries) = Inr () \<and>
   \<not> ttl_overflows None (default_ttl two_entries) \<and>
   fst (put (Some ''c'') (Some ''x'') None 20 two_entries) = Inr () \<and>
   fst (delete ''b'' two_entries) = Inr True"
proof -
  have big: "ttl_overflows (Some (2 ^ 1024 - 2 ^ 970)) (default_ttl two_entries)"
    by (simp add: ttl_overflows_def)
  have edge: "\<not> ttl_overflows (Some (2 ^ 1024 - 2 ^ 970 - 1)) (default_ttl two_entries)"
    by (simp add: ttl_overflows_def)
  have none: "\<not> ttl_overflows None (default_ttl two_entries)"
    by (simp add: ttl_overflows_def two_entries_state)
  have c: "''c'' \<noteq> []" by simp
  note over = put_failures_leave_state [OF two_entries_def, of "Some ''x''"
      "Some (2 ^ 1024 - 2 ^ 970)" 20 two_entries "''b''"]
  from over big c
  have one: "put (Some ''c'') (Some ''x'') (Some (2 ^ 1024 - 2 ^ 970)) 20 two_entries =
      (Inl OverflowError, two_entries)" by blast
  note below = put_failures_leave_state [OF two_entries_def, of "Some ''x''"
      "Some (2 ^ 1024 - 2 ^ 970 - 1)" 20 two_entries "''b''"]
  from below edge c
  have two: "fst (put (Some ''c'') (Some ''x'') (Some (2 ^ 1024 - 2 ^ 970 - 1)) 20 two_entries) =
      Inr ()" by blast
  note plain = put_failures_leave_state [OF two_entries_def, of "Some ''x''" None 20
      two_entries "''b''"]
  from plain none c
  have three: "fst (put (Some ''c'') (Some ''x'') None 20 two_entries) = Inr ()" by blast
  from plain have four: "put None (Some ''x'') None 20 two_entries = (Inl ValueError, two_entries)"
    "put (Some []) (Some ''x'') None 20 two_entries = (Inl ValueError, two_entries)"
    by blast+
  from plain have "fst (delete ''b'' two_entries) = Inr (map_of (cache two_entries) ''b'' \<noteq> None)"
    by blast
  then have five: "fst (delete ''b'' two_entries) = Inr True" by (simp add: two_entries_state)
  from big edge none one two three four five show ?thesis by blast
qed

text \<open>C6. \<open>ValueError\<close> is not the only failure: on a new engine a put with the key \<open>k\<close>
  and the ttl \<open>10 ^ 309\<close> raises \<open>OverflowError\<close>.\<close>

theorem put_huge_ttl_raises_overflow:
  "fst (put (Some ''k'') (Some ''v'') (Some (10 ^ 309)) 1700000000
          (create_cache None None :: string ThreadSafeCache)) = Inl OverflowError"
  by (simp add: put_def put_expiry_def float_add_int_def int_to_float_def float_limit_def)

subsection \<open>Expiry\<close>

lemma put_expiry_precedence:
  "\<bar>t\<bar> < float_limit \<Longrightarrow> put_expiry (Some t) d now = Inr (now + real_of_int t)"
  "\<bar>t\<bar> < float_limit \<Longrightarrow> put_expiry None (Some t) now = Inr (now + real_of_int t)"
  "put_expiry None None now = Inr 0"
  by (simp_all add: put_expiry_def float_add_int_def int_to_float_def)

lemma is_expired_nonneg:
  assumes "0 \<le> expiry node"
  shows "is_expired now node \<longleftrightarrow> expiry node \<noteq> 0 \<and> now > expiry node"
  using assms by (auto simp: is_expired_def)

lemma is_expired_boundary: "\<not> is_expired (expiry node) node"
  by (simp add: is_expired_def)

lemma is_expired_nonpos: "expiry node \<le> 0 \<Longrightarrow> \<not> is_expired now node"
  by (simp add: is_expired_def)

text \<open>What a put stores is what a later get finds, as long as the stored expiry is not
  negative: the value until the expiry has passed, nothing afterwards, and the value for
  ever when no ttl applies.\<close>

lemma put_then_get:
  assumes reach: "s = run cs (create_cache ms dttl)" and pos: "0 < max_size s"
    and k: "ky \<noteq> []" and p: "put (Some ky) v ttl now s = (r, s')"
    and pe: "put_expiry ttl (default_ttl s) now = Inr e"
    and nonneg: "0 \<le> e"
  shows "fst (get ky now' s') = Inr (if e \<noteq> 0 \<and> e < now' then None else v)"
proof -
  from reach obtain xs where c: "consistent s xs" by (rule reachable_consistent)
  have "\<exists>a ys. consistent s' ys \<and> map_of (cache s') ky = Some a \<and> val (heap s' a) = v \<and>
               expiry (heap s' a) = e"
  proof (cases "map_of (cache s) ky")
    case None
    note eff = put_new_key_effect [OF c pos k None pe p]
    from eff(2,3) have "\<exists>ys. consistent s' ys" by blast
    with eff(1) show ?thesis by blast
  next
    case (Some a)
    from put_existing_key [OF c Some pe, of v] p obtain h' where
      eq: "s' = s\<lparr>heap := h'\<rparr>"
      and sp: "same_payload ((heap s)(a := (heap s a)\<lparr>val := v, expiry := e\<rparr>)) h'"
      and c': "consistent s' (a # remove1 a xs)" by auto
    from sp eq have "val (heap s' a) = v" "expiry (heap s' a) = e"
      by (simp_all add: same_payload_def)
    moreover from eq Some have "map_of (cache s') ky = Some a" by simp
    ultimately show ?thesis using c' by blast
  qed
  then obtain a ys where c': "consistent s' ys" and m': "map_of (cache s') ky = Some a"
    and v: "val (heap s' a) = v" and e: "expiry (heap s' a) = e" by blast
  show ?thesis
  proof (cases "is_expired now' (heap s' a)")
    case True
    from get_expired [OF c' m' True] have "fst (get ky now' s') = Inr None" by auto
    with True e nonneg show ?thesis by (auto simp: is_expired_def)
  next
    case False
    from get_hit [OF c' m' False] v have "fst (get ky now' s') = Inr v" by auto
    with False e nonneg show ?thesis by (auto simp: is_expired_def)
  qed
qed

text \<open>C5. A put at clock reading 1700000000 with a ttl of -2000000000 stores the expiry
  -300000000. The entry has an expiry and every clock reading from 0 on is later, but
  \<open>_is_expired\<close> tests \<open>expiry > 0\<close> and never finds it expired: get returns its value at
  every clock reading.\<close>

theorem negative_expiry_never_expires:
  "map_of (cache immortal_example) ''k'' = Some 2 \<and>
   expiry (heap immortal_example 2) = - 300000000 \<and>
   (\<forall>now. \<not> is_expired now (heap immortal_example 2) \<and>
          fst (get ''k'' now immortal_example) = Inr (Some ''v''))"
proof -
  have st: "map_of (cache immortal_example) ''k'' = Some 2"
    "expiry (heap immortal_example 2) = - 300000000" "val (heap immortal_example 2) = Some ''v''"
    by (simp_all add: immortal_example_def engine_defs)
  have ne: "\<not> is_expired now (heap immortal_example 2)" for now
    by (simp add: is_expired_def st)
  have "fst (get ''k'' now immortal_example) = Inr (Some ''v'')" for now
  proof -
    obtain r s' where g: "get ''k'' now immortal_example = (r, s')"
      by (cases "get ''k'' now immortal_example")
    from reachable_invariant [of "[Put (Some ''k'') (Some ''v'') (Some (- 2000000000)) 1700000000]" None None]
    have "invariant immortal_example" by (simp only: immortal_example_def)
    then obtain xs where c: "consistent immortal_example xs" by (auto simp: invariant_def)
    from get_hit [OF c st(1) ne [of now]] g st(3) show ?thesis by auto
  qed
  with st ne show ?thesis by simp
qed

subsection \<open>Construction\<close>

text \<open>C9. \<open>create_cache\<close> takes \<open>max_size\<close> (1000 when omitted) and
  \<open>default_ttl\<close> (\<open>None\<close> when omitted) and nothing else; whatever it is given, the
  engine starts empty, with its counters at 0 and with \<open>cleanup_interval\<close> 60.\<close>

theorem create_cache_options:
  "max_size (create_cache None dttl) = 1000 \<and>
   max_size (create_cache (Some m) dttl) = m \<and>
   default_ttl (create_cache ms None) = None \<and>
   default_ttl (create_cache ms dttl) = dttl \<and>
   cleanup_interval (create_cache ms dttl) = 60 \<and>
   running (create_cache ms dttl) \<and>
   cache (create_cache ms dttl) = [] \<and> recency (create_cache ms dttl) = Some [] \<and>
   hits (create_cache ms dttl) = 0 \<and> misses (create_cache ms dttl) = 0 \<and>
   evictions (create_cache ms dttl) = 0 \<and> expired_removals (create_cache ms dttl) = 0"
  by (simp add: create_cache_def ThreadSafeCache_init_def CacheNode_init_def recency_def
      eval_nat_numeral)

text \<open>C9. The interval is not a choice of the caller: no call of \<open>create_cache\<close> builds
  an engine whose \<open>cleanup_interval\<close> is 30.\<close>

theorem cleanup_interval_is_not_an_option:
  "\<not> (\<exists>ms dttl. cleanup_interval (create_cache ms dttl :: string ThreadSafeCache) = 30)"
  by (simp add: create_cache_def ThreadSafeCache_init_def)

subsection \<open>Statistics\<close>

text \<open>C7. \<open>get_stats\<close> returns the counters as they are, \<open>total_requests = hits + misses\<close>,
  \<open>hit_rate = hits / (hits + misses)\<close> when there was a request and 0 when there was
  none, and \<open>current_size\<close> the number of entries of the dictionary; the state it leaves
  is the state it found.\<close>

theorem get_stats_snapshot:
  assumes "get_stats s = (r, s')"
  shows "s' = s \<and>
    (\<exists>st. r = Inr st \<and>
       stat_hits st = hits s \<and> stat_misses st = misses s \<and>
       total_requests st = hits s + misses s \<and>
       (total_requests st > 0 \<longrightarrow>
          hit_rate st = real_of_int (hits s) / real_of_int (hits s + misses s)) \<and>
       (hits s + misses s = 0 \<longrightarrow> hit_rate st = 0) \<and>
       current_size st = int (length (cache s)) \<and>
       stat_evictions st = evictions s \<and>
       stat_expired_removals st = expired_removals s)"
  using assms by (auto simp: get_stats_def Let_def)

lemma stats_example_counters:
  "hits stats_example = 2" "misses stats_example = 1" "length (cache stats_example) = 1"
  "evictions stats_example = 0" "expired_removals stats_example = 0"
  by (simp_all add: stats_example_def engine_defs)

theorem get_stats_snapshot_witness:
  "get_stats stats_example =
     (Inr \<lparr>stat_hits = 2, stat_misses = 1, hit_rate = 2 / 3, total_requests = 3,
           current_size = 1, stat_evictions = 0, stat_expired_removals = 0\<rparr>, stats_example)"
proof -
  obtain r s' where g: "get_stats stats_example = (r, s')" by (cases "get_stats stats_example")
  from get_stats_snapshot [OF g] obtain st where "s' = stats_example" "r = Inr st"
    "stat_hits st = 2" "stat_misses st = 1" "total_requests st = 3" "hit_rate st = 2 / 3"
    "current_size st = 1" "stat_evictions st = 0" "stat_expired_removals st = 0"
    by (auto simp: stats_example_counters)
  with g show ?thesis by (cases st) simp
qed

end
